theory Spec2Isabelle
  imports Main "HOL-Library.Word"
begin

section \<open>Data model of RewriteSystem.h\<close>

text \<open>
  The header \<^verbatim>\<open>lib/AST/RequirementMachine/RewriteSystem.h\<close> declares the classes
  \<^verbatim>\<open>Rule\<close>, \<^verbatim>\<open>RewriteStep\<close>, \<^verbatim>\<open>RewritePath\<close> and \<^verbatim>\<open>RewriteSystem\<close>. Symbols and
  terms come from \<^verbatim>\<open>Symbol.h\<close> and \<^verbatim>\<open>Term.h\<close>: a term is a finite sequence of symbols,
  and the symbol type stays a type parameter.

  A C++ \<^verbatim>\<open>assert\<close> is a branch of the model: a failed assertion is the
  value \<open>Inl fault\<close>, a normal return is \<open>Inr result\<close>.
\<close>

type_synonym 's Term = "'s list"

datatype Fault =
    Overflow          \<comment> \<open>\<^verbatim>\<open>assert(Offset == offset && "Overflow")\<close> and the same for RuleID\<close>
  | AlreadyDeleted    \<comment> \<open>\<^verbatim>\<open>assert(!deleted)\<close> in \<^verbatim>\<open>Rule::markDeleted\<close>\<close>
  | BadRuleID         \<comment> \<open>\<^verbatim>\<open>Rules[ruleID]\<close> read outside the rule table\<close>
  | Mismatch          \<comment> \<open>a step whose pattern is not present at its offset\<close>

subsection \<open>Rule\<close>

record 's Rule =
  LHS :: "'s Term"
  RHS :: "'s Term"
  deleted :: bool

text \<open>\<^verbatim>\<open>Rule(Term lhs, Term rhs) : LHS(lhs), RHS(rhs), deleted(false) {}\<close>\<close>

definition Rule_ctor :: "'s Term \<Rightarrow> 's Term \<Rightarrow> 's Rule" where
  "Rule_ctor lhs rhs = \<lparr>LHS = lhs, RHS = rhs, deleted = False\<rparr>"

definition getLHS :: "'s Rule \<Rightarrow> 's Term" where
  "getLHS r = LHS r"

definition getRHS :: "'s Rule \<Rightarrow> 's Term" where
  "getRHS r = RHS r"

definition isDeleted :: "'s Rule \<Rightarrow> bool" where
  "isDeleted r = deleted r"

text \<open>\<^verbatim>\<open>void markDeleted() { assert(!deleted); deleted = true; }\<close>\<close>

definition markDeleted :: "'s Rule \<Rightarrow> Fault + 's Rule" where
  "markDeleted r = (if deleted r then Inl AlreadyDeleted else Inr (r\<lparr>deleted := True\<rparr>))"

definition getDepth :: "'s Rule \<Rightarrow> nat" where
  "getDepth r = length (LHS r)"

subsection \<open>RewriteStep\<close>

datatype StepKind = ApplyRewriteRule | AdjustConcreteType

text \<open>The enumerators in declaration order: \<^verbatim>\<open>unsigned(kind)\<close>.\<close>

fun StepKind_unsigned :: "StepKind \<Rightarrow> 32 word" where
  "StepKind_unsigned ApplyRewriteRule = 0"
| "StepKind_unsigned AdjustConcreteType = 1"

text \<open>
  The four bit-fields \<^verbatim>\<open>unsigned Kind : 1; unsigned Offset : 15; unsigned RuleID : 15;
  unsigned Inverse : 1\<close>. Storing an \<^verbatim>\<open>unsigned\<close> into a field keeps its low bits
  (\<open>ucast\<close> to the narrower word); reading a field back widens it again.
\<close>

record RewriteStep =
  Kind :: "1 word"
  Offset :: "15 word"
  RuleID :: "15 word"
  Inverse :: "1 word"

definition bool_unsigned :: "bool \<Rightarrow> 1 word" where
  "bool_unsigned b = (if b then 1 else 0)"

text \<open>
  The constructor: each of the two assertions compares the stored field with the argument,
  the offset first.
\<close>

definition RewriteStep_ctor :: "StepKind \<Rightarrow> 32 word \<Rightarrow> 32 word \<Rightarrow> bool \<Rightarrow> Fault + RewriteStep" where
  "RewriteStep_ctor kind offset ruleID inv_flag =
     (let k = (ucast (StepKind_unsigned kind) :: 1 word);
          off = (ucast offset :: 15 word)
      in if (ucast off :: 32 word) \<noteq> offset then Inl Overflow
         else let rid = (ucast ruleID :: 15 word)
              in if (ucast rid :: 32 word) \<noteq> ruleID then Inl Overflow
                 else Inr \<lparr>Kind = k, Offset = off, RuleID = rid, Inverse = bool_unsigned inv_flag\<rparr>)"

definition forRewriteRule :: "32 word \<Rightarrow> 32 word \<Rightarrow> bool \<Rightarrow> Fault + RewriteStep" where
  "forRewriteRule offset ruleID inv_flag = RewriteStep_ctor ApplyRewriteRule offset ruleID inv_flag"

definition forAdjustment :: "32 word \<Rightarrow> bool \<Rightarrow> Fault + RewriteStep" where
  "forAdjustment offset inv_flag = RewriteStep_ctor AdjustConcreteType offset 0 inv_flag"

text \<open>\<^verbatim>\<open>void invert() { Inverse = !Inverse; }\<close>\<close>

definition RewriteStep_invert :: "RewriteStep \<Rightarrow> RewriteStep" where
  "RewriteStep_invert s = s\<lparr>Inverse := bool_unsigned (\<not> (Inverse s \<noteq> 0))\<rparr>"

text \<open>Reading the fields of a step back as the values the code works with.\<close>

definition stepKind :: "RewriteStep \<Rightarrow> StepKind" where
  "stepKind s = (if Kind s = 0 then ApplyRewriteRule else AdjustConcreteType)"

definition isInverse :: "RewriteStep \<Rightarrow> bool" where
  "isInverse s = (Inverse s \<noteq> 0)"

subsection \<open>RewritePath and RewriteSystem\<close>

text \<open>\<^verbatim>\<open>struct AppliedRewriteStep { Term lhs; Term rhs; MutableTerm prefix; MutableTerm suffix; }\<close>\<close>

record 's AppliedRewriteStep =
  lhs :: "'s Term"
  rhs :: "'s Term"
  prefix :: "'s Term"
  suffix :: "'s Term"

text \<open>
  \<^verbatim>\<open>struct RewritePath\<close> has the single member \<^verbatim>\<open>Steps\<close>, a vector of steps: a path is
  the list of its steps. \<^verbatim>\<open>add\<close> pushes one step at the back, \<^verbatim>\<open>append\<close> concatenates.
\<close>

type_synonym RewritePath = "RewriteStep list"

definition RewritePath_empty :: "RewritePath \<Rightarrow> bool" where
  "RewritePath_empty p = (p = [])"

definition RewritePath_add :: "RewritePath \<Rightarrow> RewriteStep \<Rightarrow> RewritePath" where
  "RewritePath_add p s = p @ [s]"

definition RewritePath_append :: "RewritePath \<Rightarrow> RewritePath \<Rightarrow> RewritePath" where
  "RewritePath_append p other = p @ other"

text \<open>
  \<^verbatim>\<open>struct MergedAssociatedType { Term rhs; Symbol lhsSymbol; Symbol mergedSymbol; }\<close>; the
  first field is named \<open>mergedRhs\<close> here, \<open>rhs\<close> being a field of \<open>AppliedRewriteStep\<close>.
\<close>

record 's MergedAssociatedType =
  mergedRhs :: "'s Term"
  lhsSymbol :: "'s"
  mergedSymbol :: "'s"

text \<open>
  The state of \<^verbatim>\<open>class RewriteSystem\<close>: the rule table, the trie from left-hand sides to
  rule identifiers, the queue of the merging heuristic, the set of checked overlaps and
  the homotopy generators (a term with a path that rewrites it back to itself). The
  allocation context and the debug options carry no state of the algorithm; the protocol
  graph only serves the term order, which the operations take as the parameter \<open>lt\<close>.
\<close>

record 's RewriteSystem =
  Rules :: "'s Rule list"
  Trie :: "'s Term \<rightharpoonup> nat"
  MergedAssociatedTypes :: "'s MergedAssociatedType list"
  CheckedOverlaps :: "(nat \<times> nat) set"
  HomotopyGenerators :: "('s Term \<times> RewritePath) list"

text \<open>
  Modelled from the spec: the system as constructed (\<^verbatim>\<open>explicit RewriteSystem(RewriteContext &)\<close>,
  defined in \<^verbatim>\<open>RewriteSystem.cpp\<close>), before \<open>initialize\<close> has supplied any rule.
\<close>

definition emptySystem :: "'s RewriteSystem" where
  "emptySystem = \<lparr>Rules = [], Trie = Map.empty, MergedAssociatedTypes = [],
                  CheckedOverlaps = {}, HomotopyGenerators = []\<rparr>"

text \<open>
  \<^verbatim>\<open>Rule &getRule(unsigned ruleID) { return Rules[ruleID]; }\<close>: indexing outside the
  table is undefined in C++ and a fault here.
\<close>

definition getRule :: "'s RewriteSystem \<Rightarrow> nat \<Rightarrow> Fault + 's Rule" where
  "getRule sys ruleID =
     (if ruleID < length (Rules sys) then Inr (Rules sys ! ruleID) else Inl BadRuleID)"


text \<open>
  Modelled from the spec: the order on terms belongs to \<^verbatim>\<open>Term.h\<close> and the protocol
  graph. The operations take it as the parameter \<open>lt\<close> (\<open>lt x y\<close>: \<open>x\<close> is smaller than
  \<open>y\<close>). Sections 2 and 4.3 describe it as a strict total order that is well-founded and
  under which every application of an oriented rule inside a term descends: the
  predicate \<open>term_order\<close>. A rule table is \<open>oriented\<close> when every rule has its left-hand
  side above its right-hand side (the invariant of section 3).
\<close>

definition term_order :: "('s Term \<Rightarrow> 's Term \<Rightarrow> bool) \<Rightarrow> bool" where
  "term_order lt \<longleftrightarrow>
     wf {(x, y). lt x y}
     \<and> (\<forall>x y. x \<noteq> y \<longrightarrow> lt x y \<or> lt y x)
     \<and> (\<forall>u v p s. lt u v \<longrightarrow> lt (p @ u @ s) (p @ v @ s))"

definition oriented :: "('s Term \<Rightarrow> 's Term \<Rightarrow> bool) \<Rightarrow> 's Rule list \<Rightarrow> bool" where
  "oriented lt rules = list_all (\<lambda>r. lt (getRHS r) (getLHS r)) rules"

text \<open>
  One such order, for running the operations on concrete systems: symbols numbered by
  natural numbers, shorter terms first, terms of equal length compared lexicographically.
\<close>

fun lexLess :: "nat list \<Rightarrow> nat list \<Rightarrow> bool" where
  "lexLess (x # xs) (y # ys) = (x < y \<or> (x = y \<and> lexLess xs ys))"
| "lexLess [] (y # ys) = True"
| "lexLess xs [] = False"

definition shortlex :: "nat list \<Rightarrow> nat list \<Rightarrow> bool" where
  "shortlex x y = (length x < length y \<or> (length x = length y \<and> lexLess x y))"

text \<open>
  Modelled from the spec: \<^verbatim>\<open>RewriteSystem::simplify\<close> is declared in the header and defined
  in \<^verbatim>\<open>RewriteSystem.cpp\<close>. Section 4.3: it repeatedly finds the leftmost offset, lowest
  rule-id occurrence of some non-deleted rule's LHS within the term, rewrites it, and
  repeats until no rule applies; each applied step is appended to the path if one is
  supplied. The definitions from here to \<open>simplify\<close> spell this out. First, what it means
  for a pattern to occur in a term at an offset, and the term with that occurrence replaced.
\<close>

definition matchesAt :: "'s Term \<Rightarrow> nat \<Rightarrow> 's Term \<Rightarrow> bool" where
  "matchesAt pat off t = (off + length pat \<le> length t \<and> take (length pat) (drop off t) = pat)"

definition rewriteAt :: "'s Term \<Rightarrow> nat \<Rightarrow> 's Term \<Rightarrow> 's Term \<Rightarrow> 's Term" where
  "rewriteAt t off u v = take off t @ v @ drop (off + length u) t"

text \<open>
  Modelled from the spec: the search of \<open>simplify\<close> (section 4.3). \<open>ruleAt\<close> is the lowest
  identifier of a non-deleted rule whose LHS occurs at a given offset; \<open>findRedex\<close> is the
  leftmost offset that has one, with that rule. The trie only accelerates the search
  (section 1), so the search runs over the rule table.
\<close>

definition ruleAt :: "'s Rule list \<Rightarrow> 's Term \<Rightarrow> nat \<Rightarrow> nat option" where
  "ruleAt rules t off =
     List.find (\<lambda>i. \<not> isDeleted (rules ! i) \<and> matchesAt (getLHS (rules ! i)) off t)
       [0..<length rules]"

definition findRedex :: "'s Rule list \<Rightarrow> 's Term \<Rightarrow> (nat \<times> nat) option" where
  "findRedex rules t =
     (case List.find (\<lambda>off. ruleAt rules t off \<noteq> None) [0..<Suc (length t)] of
        None \<Rightarrow> None
      | Some off \<Rightarrow> map_option (Pair off) (ruleAt rules t off))"

text \<open>
  Modelled from the spec: the loop of \<open>simplify\<close> (section 4.3). With a path supplied, the
  step for each rewrite is built by \<open>forRewriteRule\<close> from the offset and the rule
  identifier converted to \<^verbatim>\<open>unsigned\<close>, and a failed assertion there ends the call.
  The header gives \<open>simplify\<close> a \<^verbatim>\<open>bool\<close> result, taken here to tell whether any rule was
  applied. On a rule table that is not oriented the loop may run forever: not returning
  is the value \<open>None\<close>.
\<close>

partial_function (option) simplify_loop ::
  "'s Rule list \<Rightarrow> 's Term \<Rightarrow> RewritePath option \<Rightarrow> bool
     \<Rightarrow> (Fault + bool \<times> 's Term \<times> RewritePath option) option" where
  "simplify_loop rules t path changed =
     (case findRedex rules t of
        None \<Rightarrow> Some (Inr (changed, t, path))
      | Some (off, i) \<Rightarrow>
          (let t' = rewriteAt t off (getLHS (rules ! i)) (getRHS (rules ! i))
           in case path of
                None \<Rightarrow> simplify_loop rules t' None True
              | Some p \<Rightarrow>
                  (case forRewriteRule (of_nat off) (of_nat i) False of
                     Inl e \<Rightarrow> Some (Inl e)
                   | Inr s \<Rightarrow> simplify_loop rules t' (Some (RewritePath_add p s)) True)))"

declare simplify_loop.simps [code]

text \<open>
  Modelled from the spec: \<^verbatim>\<open>bool simplify(MutableTerm &term, RewritePath *path=nullptr)\<close>;
  the term and the path are updated in place in the code and returned here.
\<close>

definition simplify ::
  "'s RewriteSystem \<Rightarrow> 's Term \<Rightarrow> RewritePath option
     \<Rightarrow> (Fault + bool \<times> 's Term \<times> RewritePath option) option" where
  "simplify sys t path = simplify_loop (Rules sys) t path False"

text \<open>
  Modelled from the spec: \<^verbatim>\<open>RewriteSystem::addRule\<close> is declared in the header and defined
  in \<^verbatim>\<open>RewriteSystem.cpp\<close>. Section 4.3: it orients the pair under the term order; if the
  two sides are already equal, this is a no-op; otherwise it appends a new Rule and
  inserts its LHS into the trie; it returns whether a new rule was added. The spec says
  of the optional derivation path only that it is retained for later proof construction;
  it does not influence the rule table or the result and is left out.
\<close>

definition addRule ::
  "('s Term \<Rightarrow> 's Term \<Rightarrow> bool) \<Rightarrow> 's Term \<Rightarrow> 's Term \<Rightarrow> 's RewriteSystem
     \<Rightarrow> bool \<times> 's RewriteSystem" where
  "addRule lt a b sys =
     (if a = b then (False, sys)
      else let (u, v) = (if lt a b then (b, a) else (a, b));
               i = length (Rules sys)
           in (True, sys\<lparr>Rules := Rules sys @ [Rule_ctor u v], Trie := (Trie sys)(u \<mapsto> i)\<rparr>))"

text \<open>
  Modelled from the spec: \<^verbatim>\<open>RewriteSystem::initialize\<close> is declared in the header and
  defined in \<^verbatim>\<open>RewriteSystem.cpp\<close>. Section 4.3: each input pair is oriented and added as
  a rule, starting from the empty system.
\<close>

fun initialize_loop ::
  "('s Term \<Rightarrow> 's Term \<Rightarrow> bool) \<Rightarrow> ('s Term \<times> 's Term) list \<Rightarrow> 's RewriteSystem
     \<Rightarrow> 's RewriteSystem" where
  "initialize_loop lt [] sys = sys"
| "initialize_loop lt ((a, b) # rest) sys = initialize_loop lt rest (snd (addRule lt a b sys))"

text \<open>Modelled from the spec: \<open>initialize\<close> runs that loop on the system as constructed.\<close>

definition initialize :: "('s Term \<Rightarrow> 's Term \<Rightarrow> bool) \<Rightarrow> ('s Term \<times> 's Term) list \<Rightarrow> 's RewriteSystem" where
  "initialize lt pairs = initialize_loop lt pairs emptySystem"

subsection \<open>Applying steps and paths\<close>

text \<open>
  Modelled from the spec: \<^verbatim>\<open>RewriteStep::applyRewriteRule\<close> is declared in the header and
  defined in \<^verbatim>\<open>RewriteSystem.cpp\<close>. Section 4.2: applying a step rewrites the subterm at
  its offset matching the rule's source side (LHS if forward, RHS if inverse) to the
  target side and returns the matched prefix and suffix; a pattern that is not present
  at that offset is a fault.
\<close>

definition applyRewriteRule ::
  "'s RewriteSystem \<Rightarrow> RewriteStep \<Rightarrow> 's Term \<Rightarrow> Fault + 's Term \<times> 's AppliedRewriteStep" where
  "applyRewriteRule sys st t =
     (case getRule sys (unat (RuleID st)) of
        Inl e \<Rightarrow> Inl e
      | Inr rule \<Rightarrow>
          (let u = (if isInverse st then getRHS rule else getLHS rule);
               v = (if isInverse st then getLHS rule else getRHS rule);
               off = unat (Offset st)
           in if matchesAt u off t
              then Inr (rewriteAt t off u v,
                        \<lparr>lhs = getLHS rule, rhs = getRHS rule,
                         prefix = take off t, suffix = drop (off + length u) t\<rparr>)
              else Inl Mismatch))"

text \<open>
  Modelled from the spec: \<^verbatim>\<open>RewriteStep::applyAdjustment\<close> works on the substitutions
  inside a concrete-type symbol, which \<^verbatim>\<open>Symbol.h\<close> defines. Its effect on a term is the
  parameter \<open>adj\<close> (offset, direction, term); section 4.2 requires of it that it is
  invertible, which is the predicate \<open>adjust_invertible\<close>.
\<close>

type_synonym 's adjustment = "nat \<Rightarrow> bool \<Rightarrow> 's Term \<Rightarrow> Fault + 's Term"

definition adjust_invertible :: "'s adjustment \<Rightarrow> bool" where
  "adjust_invertible adj \<longleftrightarrow>
     (\<forall>off f t t'. adj off f t = Inr t' \<longrightarrow> adj off (\<not> f) t' = Inr t)"

text \<open>
  Modelled from the spec: applying one step of either kind (section 4.2), a rule step
  through \<open>applyRewriteRule\<close>, an adjustment through \<open>adj\<close>.
\<close>

definition applyStep ::
  "'s adjustment \<Rightarrow> 's RewriteSystem \<Rightarrow> RewriteStep \<Rightarrow> 's Term \<Rightarrow> Fault + 's Term" where
  "applyStep adj sys st t =
     (case stepKind st of
        ApplyRewriteRule \<Rightarrow>
          (case applyRewriteRule sys st t of Inl e \<Rightarrow> Inl e | Inr (t', applied) \<Rightarrow> Inr t')
      | AdjustConcreteType \<Rightarrow> adj (unat (Offset st)) (isInverse st) t)"

text \<open>
  Modelled from the spec: applying the steps of a path in order (section 8, round trip);
  the first fault stops the replay.
\<close>

fun applyPath ::
  "'s adjustment \<Rightarrow> 's RewriteSystem \<Rightarrow> RewritePath \<Rightarrow> 's Term \<Rightarrow> Fault + 's Term" where
  "applyPath adj sys [] t = Inr t"
| "applyPath adj sys (st # p) t =
     (case applyStep adj sys st t of Inl e \<Rightarrow> Inl e | Inr t' \<Rightarrow> applyPath adj sys p t')"

text \<open>
  Modelled from the spec: \<^verbatim>\<open>RewritePath::invert\<close> is declared in the header and defined in
  \<^verbatim>\<open>RewriteSystem.cpp\<close>. Section 4.2: it reverses the step order and flips each direction
  (with \<^verbatim>\<open>RewriteStep::invert\<close>, which the header defines).
\<close>

definition RewritePath_invert :: "RewritePath \<Rightarrow> RewritePath" where
  "RewritePath_invert p = map RewriteStep_invert (rev p)"

text \<open>
  Reducing a path: a step followed by its own inverse cancels. The identity path over a
  term is the empty path.
\<close>

inductive path_cancel :: "RewritePath \<Rightarrow> RewritePath \<Rightarrow> bool" where
  cancel: "path_cancel (p @ [st, RewriteStep_invert st] @ q) (p @ q)"

subsection \<open>Associated-type merging and completion\<close>

datatype CompletionResult = Success | MaxIterations | MaxDepth

text \<open>
  Modelled from the spec: \<^verbatim>\<open>checkMergedAssociatedType\<close> and
  \<^verbatim>\<open>processMergedAssociatedTypes\<close> are declared in the header and defined in
  \<^verbatim>\<open>RewriteSystem.cpp\<close>. Section 4.5: a new rule of the shape \<open>X.[P2:T] \<Rightarrow> X.[P1:T]\<close> is
  recorded with its right-hand side, the last symbol of its left-hand side and the merged
  symbol \<open>[P1&P2:T]\<close>; the flush pass adds rules equating each original spelling with the
  merged one. Which pairs of symbols merge, and into what, is decided by \<^verbatim>\<open>Symbol.h\<close>:
  the parameter \<open>merge\<close>.
\<close>

definition checkMergedAssociatedType ::
  "('s \<Rightarrow> 's \<Rightarrow> 's option) \<Rightarrow> 's Term \<Rightarrow> 's Term \<Rightarrow> 's RewriteSystem \<Rightarrow> 's RewriteSystem" where
  "checkMergedAssociatedType merge u v sys =
     (if u \<noteq> [] \<and> v \<noteq> [] \<and> butlast u = butlast v
      then (case merge (last u) (last v) of
              None \<Rightarrow> sys
            | Some m \<Rightarrow>
                sys\<lparr>MergedAssociatedTypes := MergedAssociatedTypes sys @
                      [\<lparr>mergedRhs = v, lhsSymbol = last u, mergedSymbol = m\<rparr>]\<rparr>)
      else sys)"

text \<open>
  Modelled from the spec: the flush pass of section 4.5. For a recorded entry with
  right-hand side \<open>X.[P1:T]\<close>, last symbol \<open>[P2:T]\<close> and merged symbol \<open>[P1&P2:T]\<close> it adds
  rules equating \<open>X.[P2:T]\<close> and \<open>X.[P1:T]\<close> with \<open>X.[P1&P2:T]\<close>, and reports whether any
  rule was added.
\<close>

fun mergeRules ::
  "('s Term \<Rightarrow> 's Term \<Rightarrow> bool) \<Rightarrow> 's MergedAssociatedType list \<Rightarrow> bool \<Rightarrow> 's RewriteSystem
     \<Rightarrow> bool \<times> 's RewriteSystem" where
  "mergeRules lt [] added sys = (added, sys)"
| "mergeRules lt (e # es) added sys =
     (let x = butlast (mergedRhs e);
          r1 = addRule lt (x @ [lhsSymbol e]) (x @ [mergedSymbol e]) sys;
          r2 = addRule lt (mergedRhs e) (x @ [mergedSymbol e]) (snd r1)
      in mergeRules lt es (added \<or> fst r1 \<or> fst r2) (snd r2))"

text \<open>
  Modelled from the spec: \<^verbatim>\<open>processMergedAssociatedTypes\<close> consumes the queue
  (header, comment on \<^verbatim>\<open>MergedAssociatedTypes\<close>): the pending entries are taken, the queue
  is emptied, and the entries are flushed.
\<close>

definition processMergedAssociatedTypes ::
  "('s Term \<Rightarrow> 's Term \<Rightarrow> bool) \<Rightarrow> 's RewriteSystem \<Rightarrow> bool \<times> 's RewriteSystem" where
  "processMergedAssociatedTypes lt sys =
     mergeRules lt (MergedAssociatedTypes sys) False (sys\<lparr>MergedAssociatedTypes := []\<rparr>)"

text \<open>
  Modelled from the spec: \<^verbatim>\<open>computeCriticalPair\<close> and \<^verbatim>\<open>computeConfluentCompletion\<close> are
  declared in the header and defined in \<^verbatim>\<open>RewriteSystem.cpp\<close>. Section 4.4, step 1: the
  ways the left-hand side \<open>v\<close> of rule \<open>j\<close> overlaps the left-hand side \<open>u\<close> of rule \<open>i\<close> at
  offset \<open>k\<close>: either \<open>v\<close> lies inside \<open>u\<close> (\<open>u = x.v.z\<close>), or a proper prefix of \<open>v\<close> ends
  \<open>u\<close> (\<open>u = x.y\<close>, \<open>v = y.z\<close>). A rule lying on itself at offset 0 is one application of one
  rule, not an overlap. A critical pair is written (i, j, k, overlapped term, result of
  rule \<open>i\<close> at offset 0, result of rule \<open>j\<close> at offset \<open>k\<close>).
\<close>

type_synonym 's CriticalPair = "nat \<times> nat \<times> nat \<times> 's Term \<times> 's Term \<times> 's Term"

definition overlapPairs :: "nat \<Rightarrow> nat \<Rightarrow> 's Rule \<Rightarrow> 's Rule \<Rightarrow> 's CriticalPair list" where
  "overlapPairs i j a b =
     (let u = getLHS a; v = getLHS b
      in concat (map (\<lambda>k.
           if i = j \<and> k = 0 then []
           else if matchesAt v k u
           then [(i, j, k, u, getRHS a, rewriteAt u k v (getRHS b))]
           else if length u < k + length v \<and> drop k u = take (length u - k) v
                then [(i, j, k, u @ drop (length u - k) v,
                       getRHS a @ drop (length u - k) v, take k u @ getRHS b)]
                else []) [0..<length u]))"

text \<open>
  Modelled from the spec: section 4.4, step 1: every unordered pair of non-deleted rules
  not yet recorded as checked.
\<close>

definition pairsToCheck :: "'s RewriteSystem \<Rightarrow> (nat \<times> nat) list" where
  "pairsToCheck sys =
     filter (\<lambda>(i, j). i \<le> j \<and> \<not> isDeleted (Rules sys ! i) \<and> \<not> isDeleted (Rules sys ! j)
                       \<and> (i, j) \<notin> CheckedOverlaps sys)
       (List.product [0..<length (Rules sys)] [0..<length (Rules sys)])"

text \<open>
  Modelled from the spec: section 4.4, step 1: the critical pairs of an unordered pair of
  rules, either rule's left-hand side overlapping the other's.
\<close>

definition criticalPairs :: "'s Rule list \<Rightarrow> nat \<times> nat \<Rightarrow> 's CriticalPair list" where
  "criticalPairs rules p =
     (case p of (i, j) \<Rightarrow>
        overlapPairs i j (rules ! i) (rules ! j)
        @ (if i = j then [] else overlapPairs j i (rules ! j) (rules ! i)))"

text \<open>
  Modelled from the spec: the normal form of a term together with its derivation, by
  \<open>simplify\<close> with an empty path supplied.
\<close>

definition simplifyWithPath ::
  "'s RewriteSystem \<Rightarrow> 's Term \<Rightarrow> (Fault + 's Term \<times> RewritePath) option" where
  "simplifyWithPath sys t =
     (case simplify sys t (Some []) of
        None \<Rightarrow> None
      | Some (Inl e) \<Rightarrow> Some (Inl e)
      | Some (Inr (c, t', path)) \<Rightarrow> Some (Inr (t', case path of None \<Rightarrow> [] | Some p \<Rightarrow> p)))"

text \<open>
  Modelled from the spec: the derivation recorded for a resolved critical pair
  (section 4.4, step 2), as a path that rewrites the overlapped term back to itself
  (section 3, HomotopyGenerator): rule \<open>i\<close> at offset 0, the simplification of the first
  result, the inverted simplification of the second result, and rule \<open>j\<close> at offset \<open>k\<close>
  backwards. The two rule steps are built by \<open>forRewriteRule\<close>.
\<close>

definition resolvedLoop ::
  "nat \<Rightarrow> nat \<Rightarrow> nat \<Rightarrow> RewritePath \<Rightarrow> RewritePath \<Rightarrow> Fault + RewritePath" where
  "resolvedLoop i j k p1 p2 =
     (case forRewriteRule 0 (of_nat i) False of
        Inl e \<Rightarrow> Inl e
      | Inr si \<Rightarrow>
          (case forRewriteRule (of_nat k) (of_nat j) True of
             Inl e \<Rightarrow> Inl e
           | Inr sj \<Rightarrow>
               Inr (RewritePath_append (RewritePath_add [] si)
                      (RewritePath_append p1
                         (RewritePath_add (RewritePath_invert p2) sj)))))"

text \<open>
  Modelled from the spec: section 4.4, step 2: both terms of a critical pair are
  simplified; if both simplify to the same normal form the derivation is recorded as a
  homotopy generator, otherwise the resulting pair is oriented and queued as a candidate
  rule. The result is (candidates, generators).
\<close>

fun resolveCriticalPairs ::
  "('s Term \<Rightarrow> 's Term \<Rightarrow> bool) \<Rightarrow> 's RewriteSystem \<Rightarrow> 's CriticalPair list
     \<Rightarrow> (Fault + ('s Term \<times> 's Term) list \<times> ('s Term \<times> RewritePath) list) option" where
  "resolveCriticalPairs lt sys [] = Some (Inr ([], []))"
| "resolveCriticalPairs lt sys ((i, j, k, t, t1, t2) # cps) =
     (case simplifyWithPath sys t1 of
        None \<Rightarrow> None
      | Some (Inl e) \<Rightarrow> Some (Inl e)
      | Some (Inr (n1, p1)) \<Rightarrow>
          (case simplifyWithPath sys t2 of
             None \<Rightarrow> None
           | Some (Inl e) \<Rightarrow> Some (Inl e)
           | Some (Inr (n2, p2)) \<Rightarrow>
               (if n1 = n2
                then (case resolvedLoop i j k p1 p2 of
                        Inl e \<Rightarrow> Some (Inl e)
                      | Inr loop \<Rightarrow>
                          (case resolveCriticalPairs lt sys cps of
                             None \<Rightarrow> None
                           | Some (Inl e) \<Rightarrow> Some (Inl e)
                           | Some (Inr (cands, gens)) \<Rightarrow> Some (Inr (cands, (t, loop) # gens))))
                else (case resolveCriticalPairs lt sys cps of
                        None \<Rightarrow> None
                      | Some (Inl e) \<Rightarrow> Some (Inl e)
                      | Some (Inr (cands, gens)) \<Rightarrow>
                          Some (Inr ((if lt n1 n2 then (n2, n1) else (n1, n2)) # cands, gens))))))"

text \<open>
  Modelled from the spec: section 4.4, step 3: the candidates are flushed through
  \<open>addRule\<close>; a new rule whose left-hand side is longer than \<open>maxDepth\<close> (\<open>getDepth\<close>,
  section 4.1) aborts. A rule that was added is offered to the merging heuristic
  (section 4.5). The result is (aborted, some rule added, system).
\<close>

fun flushCandidates ::
  "('s Term \<Rightarrow> 's Term \<Rightarrow> bool) \<Rightarrow> ('s \<Rightarrow> 's \<Rightarrow> 's option) \<Rightarrow> nat \<Rightarrow> ('s Term \<times> 's Term) list
     \<Rightarrow> 's RewriteSystem \<Rightarrow> bool \<times> bool \<times> 's RewriteSystem" where
  "flushCandidates lt merge maxDepth [] sys = (False, False, sys)"
| "flushCandidates lt merge maxDepth ((u, v) # cs) sys =
     (let r = addRule lt u v sys
      in if fst r
         then (let new = last (Rules (snd r));
                   sys' = checkMergedAssociatedType merge (getLHS new) (getRHS new) (snd r)
               in if maxDepth < getDepth new then (True, True, sys')
                  else (case flushCandidates lt merge maxDepth cs sys' of
                          (aborted, added, sys'') \<Rightarrow> (aborted, True, sys'')))
         else flushCandidates lt merge maxDepth cs (snd r))"

datatype RoundOutcome = NoNewRule | NewRules | DepthExceeded

text \<open>
  Modelled from the spec: one round, steps 1 to 4 of section 4.4. The pairs examined are
  recorded as checked and the generators of the resolved pairs are kept; the merging
  queue is flushed at the end of the round; the round reports whether it added a rule or
  hit the depth bound.
\<close>

definition completionRound ::
  "('s Term \<Rightarrow> 's Term \<Rightarrow> bool) \<Rightarrow> ('s \<Rightarrow> 's \<Rightarrow> 's option) \<Rightarrow> nat \<Rightarrow> 's RewriteSystem
     \<Rightarrow> (Fault + RoundOutcome \<times> 's RewriteSystem) option" where
  "completionRound lt merge maxDepth sys =
     (let pairs = pairsToCheck sys;
          cps = concat (map (criticalPairs (Rules sys)) pairs);
          sys0 = sys\<lparr>CheckedOverlaps := CheckedOverlaps sys \<union> set pairs\<rparr>
      in case resolveCriticalPairs lt sys cps of
           None \<Rightarrow> None
         | Some (Inl e) \<Rightarrow> Some (Inl e)
         | Some (Inr (cands, gens)) \<Rightarrow>
             (case flushCandidates lt merge maxDepth cands
                     (sys0\<lparr>HomotopyGenerators := HomotopyGenerators sys0 @ gens\<rparr>) of
                (aborted, added, sys2) \<Rightarrow>
                  if aborted then Some (Inr (DepthExceeded, sys2))
                  else (let m = processMergedAssociatedTypes lt sys2
                        in Some (Inr (if added \<or> fst m then NewRules else NoNewRule, snd m)))))"

text \<open>
  Modelled from the spec: section 4.4, step 5: rounds are repeated until one adds no
  rule (\<open>Success\<close>), until \<open>maxIterations\<close> rounds have run (\<open>MaxIterations\<close>), or until a
  round aborts on the depth bound (\<open>MaxDepth\<close>). The second component of the result
  counts the rounds that ran.
\<close>

fun completionLoop ::
  "('s Term \<Rightarrow> 's Term \<Rightarrow> bool) \<Rightarrow> ('s \<Rightarrow> 's \<Rightarrow> 's option) \<Rightarrow> nat \<Rightarrow> nat \<Rightarrow> nat
     \<Rightarrow> 's RewriteSystem \<Rightarrow> (Fault + (CompletionResult \<times> nat) \<times> 's RewriteSystem) option" where
  "completionLoop lt merge maxDepth 0 used sys = Some (Inr ((MaxIterations, used), sys))"
| "completionLoop lt merge maxDepth (Suc n) used sys =
     (case completionRound lt merge maxDepth sys of
        None \<Rightarrow> None
      | Some (Inl e) \<Rightarrow> Some (Inl e)
      | Some (Inr (outcome, sys')) \<Rightarrow>
          (case outcome of
             NoNewRule \<Rightarrow> Some (Inr ((Success, Suc used), sys'))
           | DepthExceeded \<Rightarrow> Some (Inr ((MaxDepth, Suc used), sys'))
           | NewRules \<Rightarrow> completionLoop lt merge maxDepth n (Suc used) sys'))"

text \<open>
  Modelled from the spec: \<^verbatim>\<open>computeConfluentCompletion(maxIterations, maxDepth)\<close> returns
  the pair (result, iterations used), here together with the system it leaves.
\<close>

definition computeConfluentCompletion ::
  "('s Term \<Rightarrow> 's Term \<Rightarrow> bool) \<Rightarrow> ('s \<Rightarrow> 's \<Rightarrow> 's option) \<Rightarrow> nat \<Rightarrow> nat
     \<Rightarrow> 's RewriteSystem \<Rightarrow> (Fault + (CompletionResult \<times> nat) \<times> 's RewriteSystem) option" where
  "computeConfluentCompletion lt merge maxIterations maxDepth sys =
     completionLoop lt merge maxDepth maxIterations 0 sys"


subsection \<open>Rewriting as a relation, normal forms, traces\<close>

text \<open>
  One forward application of a live rule somewhere inside a term: \<open>p.LHS.s\<close> becomes
  \<open>p.RHS.s\<close>.
\<close>

inductive rewrites1 :: "'s Rule list \<Rightarrow> 's Term \<Rightarrow> 's Term \<Rightarrow> bool" for rules where
  step: "i < length rules \<Longrightarrow> \<not> isDeleted (rules ! i) \<Longrightarrow>
         rewrites1 rules (p @ getLHS (rules ! i) @ s) (p @ getRHS (rules ! i) @ s)"

text \<open>A term is a normal form when no live rule's left-hand side occurs in it.\<close>

definition isNormalForm :: "'s Rule list \<Rightarrow> 's Term \<Rightarrow> bool" where
  "isNormalForm rules t \<longleftrightarrow>
     (\<forall>r \<in> set rules. \<not> isDeleted r \<longrightarrow> \<not> (\<exists>p s. t = p @ getLHS r @ s))"

text \<open>
  A trace lists the rewrites applied to a term, each as (offset, rule identifier);
  replaying it checks that every rule is live and present at its offset.
\<close>

fun applyTrace :: "'s Rule list \<Rightarrow> (nat \<times> nat) list \<Rightarrow> 's Term \<Rightarrow> 's Term option" where
  "applyTrace rules [] t = Some t"
| "applyTrace rules ((off, i) # tr) t =
     (if i < length rules \<and> \<not> isDeleted (rules ! i) \<and> matchesAt (getLHS (rules ! i)) off t
      then applyTrace rules tr (rewriteAt t off (getLHS (rules ! i)) (getRHS (rules ! i)))
      else None)"

text \<open>The run of \<open>simplify_loop\<close> as a derivation, with the trace of the rewrites it applied.\<close>

inductive simplify_run ::
  "'s Rule list \<Rightarrow> 's Term \<Rightarrow> RewritePath option \<Rightarrow> bool \<Rightarrow> (nat \<times> nat) list
     \<Rightarrow> (Fault + bool \<times> 's Term \<times> RewritePath option) \<Rightarrow> bool" for rules where
  finished:
    "findRedex rules t = None \<Longrightarrow> simplify_run rules t path c [] (Inr (c, t, path))"
| rewrite_plain:
    "findRedex rules t = Some (off, i) \<Longrightarrow>
     simplify_run rules (rewriteAt t off (getLHS (rules ! i)) (getRHS (rules ! i))) None True tr res \<Longrightarrow>
     simplify_run rules t None c ((off, i) # tr) res"
| rewrite_recorded:
    "findRedex rules t = Some (off, i) \<Longrightarrow>
     forRewriteRule (of_nat off) (of_nat i) False = Inr st \<Longrightarrow>
     simplify_run rules (rewriteAt t off (getLHS (rules ! i)) (getRHS (rules ! i)))
       (Some (RewritePath_add p st)) True tr res \<Longrightarrow>
     simplify_run rules t (Some p) c ((off, i) # tr) res"
| overflow:
    "findRedex rules t = Some (off, i) \<Longrightarrow>
     forRewriteRule (of_nat off) (of_nat i) False = Inl e \<Longrightarrow>
     simplify_run rules t (Some p) c [] (Inl e)"

text \<open>The rule table of the second system is that of the first with rules appended.\<close>

definition extends :: "'s RewriteSystem \<Rightarrow> 's RewriteSystem \<Rightarrow> bool" where
  "extends sys sys' \<longleftrightarrow> (\<exists>ext. Rules sys' = Rules sys @ ext)"

section \<open>Properties of the constructors\<close>

lemma ucast_15_32_roundtrip:
  "((ucast (ucast (x :: 32 word) :: 15 word) :: 32 word) = x) = (unat x < 2 ^ 15)"
  by (simp add: word_eq_iff_unsigned [where ?'a = nat] unsigned_ucast_eq
      unsigned_take_bit_eq take_bit_nat_eq_self_iff)

lemma unat_ucast_15: "unat x < 2 ^ 15 \<Longrightarrow> unat (ucast (x :: 32 word) :: 15 word) = unat x"
  by (simp add: unsigned_ucast_eq take_bit_nat_eq_self_iff)

lemma word1_cases: "(x :: 1 word) = 0 \<or> x = 1"
proof -
  have "unat x < 2 ^ LENGTH(1)" by (rule unsigned_less)
  then have "unat x = 0 \<or> unat x = 1" by auto
  then show ?thesis by (auto simp add: word_eq_iff_unsigned [where ?'a = nat])
qed

lemma RewriteStep_ctor_Inr:
  assumes "unat offset < 2 ^ 15" and "unat ruleID < 2 ^ 15"
  shows "RewriteStep_ctor kind offset ruleID f =
           Inr \<lparr>Kind = ucast (StepKind_unsigned kind), Offset = ucast offset,
                RuleID = ucast ruleID, Inverse = bool_unsigned f\<rparr>"
  using assms by (simp add: RewriteStep_ctor_def Let_def ucast_15_32_roundtrip)

lemma RewriteStep_ctor_Inl:
  assumes "2 ^ 15 \<le> unat offset \<or> 2 ^ 15 \<le> unat ruleID"
  shows "RewriteStep_ctor kind offset ruleID f = Inl Overflow"
  using assms by (auto simp add: RewriteStep_ctor_def Let_def ucast_15_32_roundtrip)

lemma RewriteStep_ctor_cases:
  "RewriteStep_ctor kind offset ruleID f = Inl Overflow
   \<or> (unat offset < 2 ^ 15 \<and> unat ruleID < 2 ^ 15 \<and>
      RewriteStep_ctor kind offset ruleID f =
        Inr \<lparr>Kind = ucast (StepKind_unsigned kind), Offset = ucast offset,
             RuleID = ucast ruleID, Inverse = bool_unsigned f\<rparr>)"
proof (cases "unat offset < 2 ^ 15 \<and> unat ruleID < 2 ^ 15")
  case True
  then show ?thesis by (simp add: RewriteStep_ctor_Inr)
next
  case False
  then have "2 ^ 15 \<le> unat offset \<or> 2 ^ 15 \<le> unat ruleID" by auto
  then show ?thesis by (simp add: RewriteStep_ctor_Inl)
qed

lemma stepKind_stored: "stepKind (s\<lparr>Kind := ucast (StepKind_unsigned kind)\<rparr>) = kind"
  by (cases kind) (simp_all add: stepKind_def)

lemma isInverse_stored: "isInverse (s\<lparr>Inverse := bool_unsigned f\<rparr>) = f"
  by (simp add: isInverse_def bool_unsigned_def)

text \<open>
  Claim C8: \<open>markDeleted\<close> on a rule that is already deleted fails its assertion; on a live
  rule it returns the rule with the deleted flag set, so that \<open>isDeleted\<close> is true
  afterwards, and both sides of the rule are untouched.
\<close>

theorem markDeleted_checked:
  "(isDeleted r \<longrightarrow> markDeleted r = Inl AlreadyDeleted)
   \<and> (\<not> isDeleted r \<longrightarrow>
        (\<exists>r'. markDeleted r = Inr r' \<and> isDeleted r' \<and> getLHS r' = getLHS r \<and> getRHS r' = getRHS r))"
  by (simp add: markDeleted_def isDeleted_def getLHS_def getRHS_def)

theorem markDeleted_checked_witness:
  "isDeleted \<lparr>LHS = [2::nat, 1], RHS = [1], deleted = True\<rparr>
   \<and> markDeleted \<lparr>LHS = [2::nat, 1], RHS = [1], deleted = True\<rparr> = Inl AlreadyDeleted
   \<and> \<not> isDeleted (Rule_ctor [2::nat, 1] [1])
   \<and> (\<exists>r'. markDeleted (Rule_ctor [2::nat, 1] [1]) = Inr r' \<and> isDeleted r'
        \<and> getLHS r' = [2, 1] \<and> getRHS r' = [1])"
  using markDeleted_checked [of "\<lparr>LHS = [2::nat, 1], RHS = [1], deleted = True\<rparr>"]
        markDeleted_checked [of "Rule_ctor [2::nat, 1] [1]"]
  by (simp add: isDeleted_def Rule_ctor_def getLHS_def getRHS_def)

text \<open>
  Claim C9: a step whose offset or rule identifier does not fit its 15-bit field fails the
  overflow assertion instead of being stored truncated; every offset and rule identifier
  below \<open>2 ^ 15\<close> is stored exactly, together with the kind and the direction.
\<close>

theorem RewriteStep_ctor_checked:
  "(2 ^ 15 \<le> unat offset \<or> 2 ^ 15 \<le> unat ruleID \<longrightarrow>
      RewriteStep_ctor kind offset ruleID f = Inl Overflow)
   \<and> (unat offset < 2 ^ 15 \<and> unat ruleID < 2 ^ 15 \<longrightarrow>
        (\<exists>s. RewriteStep_ctor kind offset ruleID f = Inr s
           \<and> unat (Offset s) = unat offset \<and> unat (RuleID s) = unat ruleID
           \<and> stepKind s = kind \<and> isInverse s = f))"
proof (intro conjI impI)
  assume "2 ^ 15 \<le> unat offset \<or> 2 ^ 15 \<le> unat ruleID"
  then show "RewriteStep_ctor kind offset ruleID f = Inl Overflow"
    by (rule RewriteStep_ctor_Inl)
next
  assume h: "unat offset < 2 ^ 15 \<and> unat ruleID < 2 ^ 15"
  let ?s = "\<lparr>Kind = ucast (StepKind_unsigned kind), Offset = ucast offset,
             RuleID = ucast ruleID, Inverse = bool_unsigned f\<rparr>"
  have "RewriteStep_ctor kind offset ruleID f = Inr ?s"
    using h by (simp add: RewriteStep_ctor_Inr)
  moreover have "unat (Offset ?s) = unat offset" "unat (RuleID ?s) = unat ruleID"
    using h by (simp_all add: unat_ucast_15)
  moreover have "stepKind ?s = kind"
    by (cases kind) (simp_all add: stepKind_def)
  moreover have "isInverse ?s = f"
    by (simp add: isInverse_def bool_unsigned_def)
  ultimately show "\<exists>s. RewriteStep_ctor kind offset ruleID f = Inr s
      \<and> unat (Offset s) = unat offset \<and> unat (RuleID s) = unat ruleID
      \<and> stepKind s = kind \<and> isInverse s = f"
    by blast
qed

theorem RewriteStep_ctor_checked_witness:
  "RewriteStep_ctor ApplyRewriteRule 32768 3 False = Inl Overflow
   \<and> RewriteStep_ctor ApplyRewriteRule 3 32768 False = Inl Overflow
   \<and> (\<exists>s. RewriteStep_ctor ApplyRewriteRule 32767 32767 True = Inr s
        \<and> unat (Offset s) = 32767 \<and> unat (RuleID s) = 32767
        \<and> stepKind s = ApplyRewriteRule \<and> isInverse s = True)"
  using RewriteStep_ctor_checked [of 32768 3 ApplyRewriteRule False]
        RewriteStep_ctor_checked [of 3 32768 ApplyRewriteRule False]
        RewriteStep_ctor_checked [of 32767 32767 ApplyRewriteRule True]
  by simp

text \<open>
  Claim C10: every step that \<open>forAdjustment\<close> returns has kind \<open>AdjustConcreteType\<close> and
  rule identifier 0, and \<open>forAdjustment\<close> does return a step for every offset below
  \<open>2 ^ 15\<close>.
\<close>

theorem forAdjustment_no_rule:
  "(\<forall>s. forAdjustment offset f = Inr s \<longrightarrow>
        stepKind s = AdjustConcreteType \<and> Kind s = 1 \<and> RuleID s = 0)
   \<and> (unat offset < 2 ^ 15 \<longrightarrow> (\<exists>s. forAdjustment offset f = Inr s))"
  using RewriteStep_ctor_cases [of AdjustConcreteType offset 0 f]
        RewriteStep_ctor_Inr [of offset 0 AdjustConcreteType f]
  by (auto simp add: forAdjustment_def stepKind_def)

theorem forAdjustment_no_rule_witness:
  "(\<exists>s. forAdjustment 4 True = Inr s)
   \<and> forAdjustment 4 True = Inr \<lparr>Kind = 1, Offset = 4, RuleID = 0, Inverse = 1\<rparr>
   \<and> stepKind \<lparr>Kind = 1, Offset = 4, RuleID = 0, Inverse = 1\<rparr> = AdjustConcreteType"
proof -
  have r: "forAdjustment 4 True = Inr \<lparr>Kind = 1, Offset = 4, RuleID = 0, Inverse = 1\<rparr>"
    by (simp add: forAdjustment_def RewriteStep_ctor_def bool_unsigned_def)
  have "unat (4 :: 32 word) < 2 ^ 15" by simp
  with forAdjustment_no_rule [of 4 True] r show ?thesis by simp
qed

section \<open>Finding and rewriting a redex\<close>

lemma find_upt_Some: "List.find P [0..<n] = Some k \<longleftrightarrow> k < n \<and> P k \<and> (\<forall>j<k. \<not> P j)"
  by (auto simp add: find_Some_iff)

lemma find_upt_None: "List.find P [0..<n] = None \<longleftrightarrow> (\<forall>k<n. \<not> P k)"
  by (auto simp add: find_None_iff)

lemma ruleAt_Some:
  "ruleAt rules t off = Some i \<longleftrightarrow>
     i < length rules \<and> \<not> isDeleted (rules ! i) \<and> matchesAt (getLHS (rules ! i)) off t
     \<and> (\<forall>j<i. \<not> (\<not> isDeleted (rules ! j) \<and> matchesAt (getLHS (rules ! j)) off t))"
  unfolding ruleAt_def find_upt_Some by blast

lemma ruleAt_None:
  "ruleAt rules t off = None \<longleftrightarrow>
     (\<forall>i<length rules. \<not> (\<not> isDeleted (rules ! i) \<and> matchesAt (getLHS (rules ! i)) off t))"
  unfolding ruleAt_def find_upt_None by blast

lemma findRedex_Some:
  "findRedex rules t = Some (off, i) \<longleftrightarrow>
     off \<le> length t \<and> ruleAt rules t off = Some i \<and> (\<forall>k<off. ruleAt rules t k = None)"
proof (cases "List.find (\<lambda>off. ruleAt rules t off \<noteq> None) [0..<Suc (length t)]")
  case None
  then have n: "\<forall>k<Suc (length t). ruleAt rules t k = None"
    unfolding find_upt_None by simp
  have "findRedex rules t = None"
    using None by (simp only: findRedex_def option.case)
  with n show ?thesis
    by (auto simp add: less_Suc_eq_le)
next
  case (Some k)
  then have k: "k < Suc (length t)" "ruleAt rules t k \<noteq> None" "\<forall>j<k. ruleAt rules t j = None"
    unfolding find_upt_Some by simp_all
  have fr: "findRedex rules t = map_option (Pair k) (ruleAt rules t k)"
    using Some by (simp only: findRedex_def option.case)
  show ?thesis
  proof
    assume "findRedex rules t = Some (off, i)"
    with fr k show "off \<le> length t \<and> ruleAt rules t off = Some i \<and> (\<forall>k<off. ruleAt rules t k = None)"
      by auto
  next
    assume r: "off \<le> length t \<and> ruleAt rules t off = Some i \<and> (\<forall>k<off. ruleAt rules t k = None)"
    have "k = off"
    proof (rule ccontr)
      assume "k \<noteq> off"
      then consider "k < off" | "off < k" by linarith
      then show False using r k by cases auto
    qed
    with fr r show "findRedex rules t = Some (off, i)"
      by simp
  qed
qed

lemma findRedex_None:
  "findRedex rules t = None \<longleftrightarrow> (\<forall>off\<le>length t. ruleAt rules t off = None)"
proof (cases "List.find (\<lambda>off. ruleAt rules t off \<noteq> None) [0..<Suc (length t)]")
  case None
  then have n: "\<forall>k<Suc (length t). ruleAt rules t k = None"
    unfolding find_upt_None by simp
  have "findRedex rules t = None"
    using None by (simp only: findRedex_def option.case)
  with n show ?thesis
    by (auto simp add: less_Suc_eq_le)
next
  case (Some k)
  then have k: "k < Suc (length t)" "ruleAt rules t k \<noteq> None"
    unfolding find_upt_Some by simp_all
  have fr: "findRedex rules t = map_option (Pair k) (ruleAt rules t k)"
    using Some by (simp only: findRedex_def option.case)
  with k show ?thesis
    by (auto simp add: less_Suc_eq_le)
qed

lemma matchesAt_split:
  "matchesAt pat off t \<Longrightarrow> t = take off t @ pat @ drop (off + length pat) t"
  unfolding matchesAt_def
  by (metis add.commute append_take_drop_id drop_drop)

lemma matchesAt_append: "matchesAt pat (length p) (p @ pat @ s)"
  by (simp add: matchesAt_def)

lemma rewriteAt_append: "rewriteAt (p @ u @ s) (length p) u v = p @ v @ s"
  by (simp add: rewriteAt_def)

section \<open>The simplification loop\<close>

lemma simplify_run_sound:
  "simplify_run rules t path c tr res \<Longrightarrow> simplify_loop rules t path c = Some res"
proof (induction rule: simplify_run.induct)
  case (finished t path c)
  then show ?case by (subst simplify_loop.simps) simp
next
  case (rewrite_plain t off i tr res c)
  then show ?case by (subst simplify_loop.simps) simp
next
  case (rewrite_recorded t off i st p tr res c)
  then show ?case by (subst simplify_loop.simps) simp
next
  case (overflow t off i e p c)
  then show ?case by (subst simplify_loop.simps) simp
qed

lemma findRedex_live:
  assumes "findRedex rules t = Some (off, i)"
  shows "i < length rules" "\<not> isDeleted (rules ! i)" "matchesAt (getLHS (rules ! i)) off t"
  using assms by (simp_all add: findRedex_Some ruleAt_Some)

lemma findRedex_descends:
  assumes compat: "\<forall>u v p s. lt u v \<longrightarrow> lt (p @ u @ s) (p @ v @ s)"
    and ori: "oriented lt rules"
    and fr: "findRedex rules t = Some (off, i)"
  shows "lt (rewriteAt t off (getLHS (rules ! i)) (getRHS (rules ! i))) t"
proof -
  let ?l = "getLHS (rules ! i)" and ?r = "getRHS (rules ! i)"
  from findRedex_live [OF fr] have i: "i < length rules" and m: "matchesAt ?l off t" by simp_all
  from ori i have "lt ?r ?l"
    by (simp add: oriented_def list_all_length)
  with compat have "lt (take off t @ ?r @ drop (off + length ?l) t) (take off t @ ?l @ drop (off + length ?l) t)"
    by blast
  with matchesAt_split [OF m] show ?thesis
    by (simp add: rewriteAt_def)
qed

lemma simplify_run_total:
  assumes wf: "wf {(x, y). lt x y}"
    and compat: "\<forall>u v p s. lt u v \<longrightarrow> lt (p @ u @ s) (p @ v @ s)"
    and ori: "oriented lt rules"
  shows "\<exists>tr res. simplify_run rules t path c tr res"
  using wf
proof (induction t arbitrary: path c rule: wf_induct_rule)
  case (less t)
  show ?case
  proof (cases "findRedex rules t")
    case None
    then show ?thesis by (blast intro: simplify_run.finished)
  next
    case (Some a)
    obtain off i where a: "a = (off, i)" by (cases a)
    with Some have fr: "findRedex rules t = Some (off, i)" by simp
    let ?t' = "rewriteAt t off (getLHS (rules ! i)) (getRHS (rules ! i))"
    have d: "(?t', t) \<in> {(x, y). lt x y}"
      using findRedex_descends [OF compat ori fr] by simp
    show ?thesis
    proof (cases path)
      case None
      from less [OF d, of None True] obtain tr res where "simplify_run rules ?t' None True tr res"
        by blast
      with fr None show ?thesis by (blast intro: simplify_run.rewrite_plain)
    next
      case (Some p)
      show ?thesis
      proof (cases "forRewriteRule (of_nat off) (of_nat i) False")
        case (Inl e)
        with fr Some show ?thesis by (blast intro: simplify_run.overflow)
      next
        case (Inr st)
        from less [OF d, of "Some (RewritePath_add p st)" True]
        obtain tr res where "simplify_run rules ?t' (Some (RewritePath_add p st)) True tr res"
          by blast
        with fr Some Inr show ?thesis by (blast intro: simplify_run.rewrite_recorded)
      qed
    qed
  qed
qed

lemma forRewriteRule_fault: "forRewriteRule off i f = Inl e \<Longrightarrow> e = Overflow"
  using RewriteStep_ctor_cases [of ApplyRewriteRule off i f]
  by (auto simp add: forRewriteRule_def)

lemma findRedex_None_normal: "findRedex rules t = None \<longleftrightarrow> isNormalForm rules t"
proof
  assume n: "findRedex rules t = None"
  show "isNormalForm rules t"
    unfolding isNormalForm_def
  proof (intro ballI impI notI)
    fix r assume r: "r \<in> set rules" "\<not> isDeleted r" "\<exists>p s. t = p @ getLHS r @ s"
    then obtain p s where t: "t = p @ getLHS r @ s" by blast
    from r obtain i where i: "i < length rules" "rules ! i = r"
      by (auto simp add: in_set_conv_nth)
    have "matchesAt (getLHS r) (length p) t" unfolding t by (rule matchesAt_append)
    moreover have "length p \<le> length t" by (simp add: t)
    ultimately show False using n i r(2)
      by (auto simp add: findRedex_None ruleAt_None)
  qed
next
  assume nf: "isNormalForm rules t"
  show "findRedex rules t = None"
    unfolding findRedex_None ruleAt_None
  proof (intro allI impI notI)
    fix off i assume "off \<le> length t" "i < length rules"
      and "\<not> isDeleted (rules ! i) \<and> matchesAt (getLHS (rules ! i)) off t"
    then have "rules ! i \<in> set rules" "\<not> isDeleted (rules ! i)"
      "t = take off t @ getLHS (rules ! i) @ drop (off + length (getLHS (rules ! i))) t"
      using matchesAt_split by auto
    with nf show False unfolding isNormalForm_def by blast
  qed
qed

lemma applyTrace_reachable:
  "applyTrace rules tr t = Some t' \<Longrightarrow> (rewrites1 rules)\<^sup>*\<^sup>* t t'"
proof (induction tr arbitrary: t)
  case Nil
  then show ?case by simp
next
  case (Cons a tr)
  obtain off i where a: "a = (off, i)" by (cases a)
  let ?l = "getLHS (rules ! i)" and ?r = "getRHS (rules ! i)"
  from Cons.prems a have h: "i < length rules" "\<not> isDeleted (rules ! i)" "matchesAt ?l off t"
    and rest: "applyTrace rules tr (rewriteAt t off ?l ?r) = Some t'"
    by (auto split: if_splits)
  have "rewrites1 rules (take off t @ ?l @ drop (off + length ?l) t)
          (take off t @ ?r @ drop (off + length ?l) t)"
    using h(1,2) by (rule rewrites1.step)
  then have "rewrites1 rules t (rewriteAt t off ?l ?r)"
    using matchesAt_split [OF h(3)] by (simp add: rewriteAt_def)
  with Cons.IH [OF rest] show ?case by simp
qed

lemma applyTrace_step:
  "findRedex rules t = Some (off, i) \<Longrightarrow>
   applyTrace rules ((off, i) # tr) t =
     applyTrace rules tr (rewriteAt t off (getLHS (rules ! i)) (getRHS (rules ! i)))"
  using findRedex_live [of rules t off i] by simp

text \<open>What a finished run returns.\<close>

lemma simplify_run_Inr:
  "simplify_run rules t path c tr res \<Longrightarrow> res = Inr (c', t', path') \<Longrightarrow>
     findRedex rules t' = None \<and> applyTrace rules tr t = Some t'
     \<and> c' = (c \<or> tr \<noteq> [])
     \<and> (path = None \<longrightarrow> path' = None)
     \<and> (\<forall>p. path = Some p \<longrightarrow>
          (\<exists>q. path' = Some (p @ q)
             \<and> list_all2 (\<lambda>st (off, i). forRewriteRule (of_nat off) (of_nat i) False = Inr st) q tr))"
proof (induction arbitrary: c' t' path' rule: simplify_run.induct)
  case (finished t path c)
  then show ?case by simp
next
  case (rewrite_plain t off i tr res c)
  from rewrite_plain.IH [OF rewrite_plain.prems]
    applyTrace_step [OF rewrite_plain.hyps(1), of tr]
  show ?case by (simp del: applyTrace.simps)
next
  case (rewrite_recorded t off i st p tr res c)
  from rewrite_recorded.IH [OF rewrite_recorded.prems]
  obtain q where q: "path' = Some ((p @ [st]) @ q)"
      "list_all2 (\<lambda>st (off, i). forRewriteRule (of_nat off) (of_nat i) False = Inr st) q tr"
    and rest: "findRedex rules t' = None"
      "applyTrace rules tr (rewriteAt t off (getLHS (rules ! i)) (getRHS (rules ! i))) = Some t'"
      "c' = True"
    by (auto simp add: RewritePath_add_def)
  have "list_all2 (\<lambda>st (off, i). forRewriteRule (of_nat off) (of_nat i) False = Inr st)
          (st # q) ((off, i) # tr)"
    using q(2) rewrite_recorded.hyps(2) by simp
  with q(1) rest applyTrace_step [OF rewrite_recorded.hyps(1), of tr] show ?case
    by (simp del: applyTrace.simps)
next
  case (overflow t off i e p c)
  then show ?case by simp
qed

text \<open>What a run that stops on a fault has seen.\<close>

lemma simplify_run_Inl:
  "simplify_run rules t path c tr res \<Longrightarrow> res = Inl e \<Longrightarrow>
     e = Overflow \<and> path \<noteq> None
     \<and> (\<exists>t' off i. applyTrace rules tr t = Some t' \<and> findRedex rules t' = Some (off, i)
           \<and> forRewriteRule (of_nat off) (of_nat i) False = Inl Overflow)"
proof (induction rule: simplify_run.induct)
  case (finished t path c)
  then show ?case by simp
next
  case (rewrite_plain t off i tr res c)
  then show ?case by simp
next
  case (rewrite_recorded t off i st p tr res c)
  from rewrite_recorded.IH [OF rewrite_recorded.prems]
    applyTrace_step [OF rewrite_recorded.hyps(1), of tr]
  show ?case by (simp del: applyTrace.simps)
next
  case (overflow t off i e' p c)
  then have "e' = Overflow" by (simp add: forRewriteRule_fault)
  with overflow show ?case by auto
qed

lemma lexLess_lex: "length x = length y \<Longrightarrow> lexLess x y \<longleftrightarrow> (x, y) \<in> lex less_than"
  by (induction x y rule: list_induct2) auto

lemma shortlex_lenlex: "shortlex x y \<longleftrightarrow> (x, y) \<in> lenlex less_than"
  by (auto simp add: shortlex_def lenlex_conv lexLess_lex)

lemma shortlex_term_order: "term_order shortlex"
  unfolding term_order_def
proof (intro conjI allI impI)
  have "{(x, y). shortlex x y} = lenlex less_than"
    by (auto simp add: shortlex_lenlex)
  then show "wf {(x, y). shortlex x y}"
    by (simp add: wf_lenlex)
next
  fix x y :: "nat list" assume "x \<noteq> y"
  with total_lenlex [OF total_less_than] show "shortlex x y \<or> shortlex y x"
    unfolding shortlex_lenlex total_on_def by blast
next
  fix u v p s :: "nat list" assume "shortlex u v"
  then have "(u, v) \<in> lenlex less_than" by (simp add: shortlex_lenlex)
  then have "(u @ s, v @ s) \<in> lenlex less_than"
    by (rule lenlex_append1) simp
  then have "(p @ u @ s, p @ v @ s) \<in> lenlex less_than"
    by (simp add: irrefl_less_than)
  then show "shortlex (p @ u @ s) (p @ v @ s)" by (simp add: shortlex_lenlex)
qed

lemma simplify_runs:
  assumes "term_order lt" and "oriented lt (Rules sys)"
  shows "\<exists>tr res. simplify sys t path = Some res \<and> simplify_run (Rules sys) t path False tr res"
proof -
  from assms(1) have "wf {(x, y). lt x y}" "\<forall>u v p s. lt u v \<longrightarrow> lt (p @ u @ s) (p @ v @ s)"
    by (simp_all add: term_order_def)
  from simplify_run_total [OF this assms(2), of t path False]
  obtain tr res where r: "simplify_run (Rules sys) t path False tr res" by blast
  then have "simplify sys t path = Some res"
    by (simp add: simplify_def simplify_run_sound)
  with r show ?thesis by blast
qed

lemma forRewriteRule_Inl_iff:
  "forRewriteRule off i f = Inl Overflow \<longleftrightarrow> 2 ^ 15 \<le> unat off \<or> 2 ^ 15 \<le> unat i"
proof
  assume "forRewriteRule off i f = Inl Overflow"
  then show "2 ^ 15 \<le> unat off \<or> 2 ^ 15 \<le> unat i"
    using RewriteStep_ctor_Inr [of off i ApplyRewriteRule f]
    by (fastforce simp add: forRewriteRule_def not_le)
next
  assume "2 ^ 15 \<le> unat off \<or> 2 ^ 15 \<le> unat i"
  then show "forRewriteRule off i f = Inl Overflow"
    unfolding forRewriteRule_def by (rule RewriteStep_ctor_Inl)
qed

lemma matchesAt_singleton: "matchesAt [b] k t \<longleftrightarrow> k < length t \<and> t ! k = b"
proof (cases "k < length t")
  case True
  then have "take 1 (drop k t) = [t ! k]"
    by (simp add: take_Suc_conv_app_nth)
  with True show ?thesis by (auto simp add: matchesAt_def)
next
  case False
  then show ?thesis by (simp add: matchesAt_def)
qed

text \<open>
  A rewrite at an offset of \<open>2 ^ 15\<close> or more: with a path supplied its step cannot be
  built and the call stops on the overflow assertion; without a path it is applied.
\<close>

lemma findRedex_far_right:
  assumes "a \<noteq> b"
  shows "findRedex [Rule_ctor [b] v] (replicate n a @ [b]) = Some (n, 0)"
  unfolding findRedex_Some ruleAt_Some ruleAt_None
  using assms
  by (auto simp add: matchesAt_singleton Rule_ctor_def isDeleted_def getLHS_def nth_append)

lemma simplify_far_right_overflow:
  assumes "a \<noteq> b" and "2 ^ 15 \<le> n" and "n < 2 ^ 32"
  shows "simplify_loop [Rule_ctor [b] v] (replicate n a @ [b]) (Some p) c = Some (Inl Overflow)"
proof -
  have "unat (of_nat n :: 32 word) = n"
    using assms(3) by (simp add: unat_of_nat)
  with assms(2) have "forRewriteRule (of_nat n) (of_nat 0) False = Inl Overflow"
    by (simp add: forRewriteRule_Inl_iff)
  with findRedex_far_right [OF assms(1), of v n] show ?thesis
    by (subst simplify_loop.simps) simp
qed

lemma findRedex_absent:
  assumes "a \<noteq> b"
  shows "findRedex [Rule_ctor [b] v] (replicate n a) = None"
  unfolding findRedex_None ruleAt_None
  using assms by (auto simp add: matchesAt_singleton Rule_ctor_def getLHS_def)

lemma simplify_far_right_plain:
  assumes "a \<noteq> b"
  shows "simplify_loop [Rule_ctor [b] []] (replicate n a @ [b]) None c
           = Some (Inr (True, replicate n a, None))"
proof -
  have "rewriteAt (replicate n a @ [b]) n [b] [] = replicate n a"
    by (simp add: rewriteAt_def)
  moreover have "simplify_loop [Rule_ctor [b] []] (replicate n a) None True
      = Some (Inr (True, replicate n a, None))"
    using findRedex_absent [OF assms, of "[]" n] by (subst simplify_loop.simps) simp
  ultimately show ?thesis
    using findRedex_far_right [OF assms, of "[]" n]
    by (subst simplify_loop.simps) (simp add: Rule_ctor_def getLHS_def getRHS_def)
qed

section \<open>Adding and deleting rules\<close>

lemma addRule_equal: "addRule lt a a sys = (False, sys)"
  by (simp add: addRule_def)

lemma addRule_distinct:
  assumes "a \<noteq> b"
  shows "addRule lt a b sys =
    (True, sys\<lparr>Rules := Rules sys @ [Rule_ctor (if lt a b then b else a) (if lt a b then a else b)],
               Trie := (Trie sys)((if lt a b then b else a) \<mapsto> length (Rules sys))\<rparr>)"
  using assms by (simp add: addRule_def Let_def)



lemma addRule_oriented:
  assumes "term_order lt" and "oriented lt (Rules sys)"
  shows "oriented lt (Rules (snd (addRule lt a b sys)))"
proof (cases "a = b")
  case True
  with assms(2) show ?thesis by (simp add: addRule_equal)
next
  case False
  from assms(1) have "\<forall>x y. x \<noteq> y \<longrightarrow> lt x y \<or> lt y x" by (simp add: term_order_def)
  with False have "lt a b \<or> lt b a" by blast
  with assms(2) False show ?thesis
    by (auto simp add: addRule_distinct oriented_def Rule_ctor_def getLHS_def getRHS_def)
qed







text \<open>Within the capacity of the step fields every step of a simplification can be built.\<close>

lemma unat_of_nat_le: "unat (of_nat n :: 32 word) \<le> n"
  by (simp add: unat_of_nat)

lemma within_capacity:
  assumes "findRedex rules t = Some (off, i)" and "length t < 2 ^ 15" and "length rules \<le> 2 ^ 15"
  shows "unat (of_nat off :: 32 word) < 2 ^ 15 \<and> unat (of_nat i :: 32 word) < 2 ^ 15"
proof -
  from assms(1) have "off \<le> length t" by (simp add: findRedex_Some)
  with assms(2) have "off < 2 ^ 15" by simp
  moreover from findRedex_live(1) [OF assms(1)] assms(3) have "i < 2 ^ 15" by simp
  ultimately show ?thesis
    using unat_of_nat_le [of off] unat_of_nat_le [of i] by linarith
qed

text \<open>Under the length-then-lexicographic order no rewrite makes a term longer.\<close>

lemma shortlex_rewrites1_length:
  assumes "oriented shortlex rules" and "rewrites1 rules t t'"
  shows "length t' \<le> length t"
  using assms(2)
proof cases
  case (step i p s)
  from assms(1) step(3) have "shortlex (getRHS (rules ! i)) (getLHS (rules ! i))"
    by (simp add: oriented_def list_all_length)
  then have "length (getRHS (rules ! i)) \<le> length (getLHS (rules ! i))"
    by (auto simp add: shortlex_def)
  with step show ?thesis by simp
qed

lemma shortlex_reachable_length:
  assumes "oriented shortlex rules" and "(rewrites1 rules)\<^sup>*\<^sup>* t t'"
  shows "length t' \<le> length t"
  using assms(2)
proof (induction rule: rtranclp_induct)
  case base
  show ?case by simp
next
  case (step y z)
  from shortlex_rewrites1_length [OF assms(1) step(2)] step(3) show ?case by simp
qed

section \<open>Rewrite paths\<close>

lemma isInverse_invert: "isInverse (RewriteStep_invert st) = (\<not> isInverse st)"
  by (simp add: RewriteStep_invert_def isInverse_def bool_unsigned_def)

lemma invert_fields:
  "Kind (RewriteStep_invert st) = Kind st" "Offset (RewriteStep_invert st) = Offset st"
  "RuleID (RewriteStep_invert st) = RuleID st" "stepKind (RewriteStep_invert st) = stepKind st"
  by (simp_all add: RewriteStep_invert_def stepKind_def)

lemma RewriteStep_invert_invert: "RewriteStep_invert (RewriteStep_invert st) = st"
  using word1_cases [of "Inverse st"]
  by (auto simp add: RewriteStep_invert_def bool_unsigned_def)

lemma rewriteAt_back:
  assumes "matchesAt u off t"
  shows "matchesAt v off (rewriteAt t off u v)"
    and "rewriteAt (rewriteAt t off u v) off v u = t"
proof -
  from assms have off: "off \<le> length t" by (simp add: matchesAt_def)
  then show "matchesAt v off (rewriteAt t off u v)"
    by (simp add: matchesAt_def rewriteAt_def)
  from off have "rewriteAt (rewriteAt t off u v) off v u = take off t @ u @ drop (off + length u) t"
    by (simp add: rewriteAt_def)
  with matchesAt_split [OF assms] show "rewriteAt (rewriteAt t off u v) off v u = t"
    by simp
qed

lemma applyStep_invert:
  assumes adj: "adjust_invertible adj" and ap: "applyStep adj sys st t = Inr t'"
  shows "applyStep adj sys (RewriteStep_invert st) t' = Inr t"
proof (cases "stepKind st")
  case ApplyRewriteRule
  with ap obtain rule where rule: "getRule sys (unat (RuleID st)) = Inr rule"
    by (auto simp add: applyStep_def applyRewriteRule_def split: sum.splits)
  let ?u = "if isInverse st then getRHS rule else getLHS rule"
  let ?v = "if isInverse st then getLHS rule else getRHS rule"
  let ?off = "unat (Offset st)"
  from ap ApplyRewriteRule rule have m: "matchesAt ?u ?off t" and t': "t' = rewriteAt t ?off ?u ?v"
    by (auto simp add: applyStep_def applyRewriteRule_def Let_def split: if_splits)
  from rewriteAt_back [OF m, of ?v] t' ApplyRewriteRule rule show ?thesis
    by (auto simp add: applyStep_def applyRewriteRule_def Let_def invert_fields isInverse_invert)
next
  case AdjustConcreteType
  with ap have "adj (unat (Offset st)) (isInverse st) t = Inr t'"
    by (simp add: applyStep_def)
  with adj have "adj (unat (Offset st)) (\<not> isInverse st) t' = Inr t"
    unfolding adjust_invertible_def by blast
  with AdjustConcreteType show ?thesis
    by (simp add: applyStep_def invert_fields isInverse_invert)
qed

lemma applyPath_append:
  "applyPath adj sys (p @ q) t =
     (case applyPath adj sys p t of Inl e \<Rightarrow> Inl e | Inr t' \<Rightarrow> applyPath adj sys q t')"
  by (induction p arbitrary: t) (auto split: sum.splits)

lemma applyPath_invert:
  assumes "adjust_invertible adj"
  shows "applyPath adj sys p src = Inr tgt \<Longrightarrow> applyPath adj sys (RewritePath_invert p) tgt = Inr src"
proof (induction p arbitrary: src)
  case Nil
  then show ?case by (simp add: RewritePath_invert_def)
next
  case (Cons st p)
  from Cons.prems obtain mid where s: "applyStep adj sys st src = Inr mid"
    and r: "applyPath adj sys p mid = Inr tgt"
    by (auto split: sum.splits)
  from Cons.IH [OF r] have "applyPath adj sys (RewritePath_invert p) tgt = Inr mid" .
  moreover from applyStep_invert [OF assms s]
  have "applyPath adj sys [RewriteStep_invert st] mid = Inr src" by simp
  ultimately show ?case
    by (simp add: RewritePath_invert_def applyPath_append)
qed

lemma path_cancel_all: "path_cancel\<^sup>*\<^sup>* (p @ RewritePath_invert p) []"
proof (induction p rule: rev_induct)
  case Nil
  then show ?case by (simp add: RewritePath_invert_def)
next
  case (snoc st p)
  have "(p @ [st]) @ RewritePath_invert (p @ [st])
      = p @ [st, RewriteStep_invert st] @ RewritePath_invert p"
    by (simp add: RewritePath_invert_def)
  moreover have "path_cancel (p @ [st, RewriteStep_invert st] @ RewritePath_invert p)
      (p @ RewritePath_invert p)"
    by (rule path_cancel.cancel)
  ultimately have "path_cancel ((p @ [st]) @ RewritePath_invert (p @ [st])) (p @ RewritePath_invert p)"
    by simp
  then show ?case using snoc by (rule converse_rtranclp_into_rtranclp)
qed

section \<open>Completion\<close>



lemma simplify_None_returns:
  assumes "term_order lt" and "oriented lt (Rules sys)"
  shows "\<exists>c t'. simplify sys t None = Some (Inr (c, t', None))"
proof -
  from simplify_runs [OF assms, of t None]
  obtain tr res where s: "simplify sys t None = Some res"
    and r: "simplify_run (Rules sys) t None False tr res" by blast
  show ?thesis
  proof (cases res)
    case (Inl e)
    with simplify_run_Inl [OF r] show ?thesis by simp
  next
    case (Inr x)
    obtain c t' path' where x: "x = (c, t', path')" by (cases x)
    with Inr simplify_run_Inr [OF r, of c t' path'] have "path' = None" by simp
    with s Inr x show ?thesis by simp
  qed
qed




lemma checkMerged_Rules [simp]: "Rules (checkMergedAssociatedType merge u v sys) = Rules sys"
  by (simp add: checkMergedAssociatedType_def split: option.splits)







lemma initialize_loop_oriented:
  assumes "term_order lt"
  shows "oriented lt (Rules sys) \<Longrightarrow> oriented lt (Rules (initialize_loop lt pairs sys))"
proof (induction pairs arbitrary: sys)
  case Nil
  then show ?case by simp
next
  case (Cons a pairs)
  obtain u v where a: "a = (u, v)" by (cases a)
  from addRule_oriented [OF assms Cons.prems, of u v] Cons.IH a show ?case by simp
qed

lemma initialize_oriented: "term_order lt \<Longrightarrow> oriented lt (Rules (initialize lt pairs))"
  unfolding initialize_def
  by (rule initialize_loop_oriented) (simp_all add: emptySystem_def oriented_def)

subsection \<open>Beyond the capacity of the step fields\<close>

text \<open>
  A derivation that needs a rewrite at an offset of \<open>2 ^ 15\<close> or more cannot be recorded:
  the step constructor fails its overflow assertion and the round stops there. The
  system \<open>9 \<Rightarrow> []\<close>, \<open>8.7\<^sup>n.9 \<Rightarrow> 7\<^sup>n.9\<close> with \<open>n \<ge> 2 ^ 15\<close> is such a case.
\<close>

lemma concat_map_upt_empty: "(\<And>k. k < m \<Longrightarrow> f k = []) \<Longrightarrow> concat (map f [0..<m]) = []"
  by (induction m) simp_all

lemma resolveCriticalPairs_head_fault:
  assumes "simplifyWithPath sys t1 = Some (Inl e)"
  shows "resolveCriticalPairs lt sys ((i, j, k, t, t1, t2) # cps) = Some (Inl e)"
  using assms by simp

lemma findRedex_before_long_rule:
  assumes "a \<noteq> b" and "Suc n < length w"
  shows "findRedex [Rule_ctor [b] v, Rule_ctor w v0] (replicate n a @ [b]) = Some (n, 0)"
proof -
  let ?rules = "[Rule_ctor [b] v, Rule_ctor w v0]"
  let ?t = "replicate n a @ [b]"
  have long: "\<not> matchesAt (getLHS (?rules ! Suc 0)) k ?t" for k
    using assms(2) by (simp add: matchesAt_def Rule_ctor_def getLHS_def)
  have short: "matchesAt (getLHS (?rules ! 0)) k ?t \<longleftrightarrow> k = n" if "k \<le> n" for k
    using that assms(1)
    by (auto simp add: matchesAt_singleton Rule_ctor_def getLHS_def nth_append)
  have live: "\<not> isDeleted (?rules ! 0)"
    by (simp add: Rule_ctor_def isDeleted_def)
  have two: "i < length ?rules \<Longrightarrow> i = 0 \<or> i = Suc 0" for i
    by auto
  have at_n: "ruleAt ?rules ?t n = Some 0"
    unfolding ruleAt_Some using live short [of n] by simp
  have before: "ruleAt ?rules ?t k = None" if "k < n" for k
    unfolding ruleAt_None
  proof (intro allI impI)
    fix i assume "i < length ?rules"
    then consider "i = 0" | "i = Suc 0" using two by blast
    then show "\<not> (\<not> isDeleted (?rules ! i) \<and> matchesAt (getLHS (?rules ! i)) k ?t)"
    proof cases
      case 1
      with short [of k] that show ?thesis by simp
    next
      case 2
      with long [of k] show ?thesis by simp
    qed
  qed
  show ?thesis
    unfolding findRedex_Some using at_n before by simp
qed

lemma simplifyWithPath_overflow_example:
  assumes "a \<noteq> b" and "Suc n < length w" and "2 ^ 15 \<le> n" and "n < 2 ^ 32"
    and "Rules sys = [Rule_ctor [b] v, Rule_ctor w v0]"
  shows "simplifyWithPath sys (replicate n a @ [b]) = Some (Inl Overflow)"
proof -
  have "unat (of_nat n :: 32 word) = n"
    using assms(4) by (simp add: unat_of_nat)
  with assms(3) have "forRewriteRule (of_nat n) (of_nat 0) False = Inl Overflow"
    by (simp add: forRewriteRule_Inl_iff)
  with findRedex_before_long_rule [OF assms(1,2), of v v0]
  have "simplify_loop [Rule_ctor [b] v, Rule_ctor w v0] (replicate n a @ [b]) (Some []) False
      = Some (Inl Overflow)"
    by (subst simplify_loop.simps) simp
  then show ?thesis
    by (simp add: simplifyWithPath_def simplify_def assms(5))
qed

lemma overlapPairs_last_symbol:
  assumes "i \<noteq> j" and "length (getLHS a) = Suc m" and "length (getLHS b) = Suc 0"
    and "\<And>k. k < m \<Longrightarrow> \<not> matchesAt (getLHS b) k (getLHS a)"
    and "matchesAt (getLHS b) m (getLHS a)"
  shows "overlapPairs i j a b
         = [(i, j, m, getLHS a, getRHS a, rewriteAt (getLHS a) m (getLHS b) (getRHS b))]"
proof -
  define f where "f = (\<lambda>k.
           if i = j \<and> k = 0 then []
           else if matchesAt (getLHS b) k (getLHS a)
           then [(i, j, k, getLHS a, getRHS a, rewriteAt (getLHS a) k (getLHS b) (getRHS b))]
           else if length (getLHS a) < k + length (getLHS b)
                   \<and> drop k (getLHS a) = take (length (getLHS a) - k) (getLHS b)
                then [(i, j, k, getLHS a @ drop (length (getLHS a) - k) (getLHS b),
                       getRHS a @ drop (length (getLHS a) - k) (getLHS b),
                       take k (getLHS a) @ getRHS b)]
                else [])"
  have early: "f k = []" if "k < m" for k
    using that assms(1,2,3) assms(4) [OF that] by (simp add: f_def)
  have last: "f m = [(i, j, m, getLHS a, getRHS a, rewriteAt (getLHS a) m (getLHS b) (getRHS b))]"
    using assms(1,5) by (simp add: f_def)
  have "overlapPairs i j a b = concat (map f [0..<Suc m])"
    by (simp only: overlapPairs_def Let_def f_def assms(2))
  also have "\<dots> = concat (map f [0..<m]) @ f m"
    by simp
  also have "\<dots> = f m"
    using concat_map_upt_empty [of m f, OF early] by simp
  finally show ?thesis
    using last by simp
qed

text \<open>The only overlap of the rule \<open>9 \<Rightarrow> []\<close> with \<open>8.7\<^sup>n.9 \<Rightarrow> 7\<^sup>n.9\<close> is at the last symbol.\<close>

lemma overlapPairs_example:
  "overlapPairs (Suc 0) 0 (Rule_ctor (8 # replicate n 7 @ [9 :: nat]) (replicate n 7 @ [9]))
       (Rule_ctor [9] [])
     = [(Suc 0, 0, Suc n, 8 # replicate n 7 @ [9], replicate n 7 @ [9], 8 # replicate n 7)]"
proof -
  let ?A = "8 # replicate n 7 @ [9 :: nat]"
  let ?a = "Rule_ctor ?A (replicate n 7 @ [9 :: nat])" and ?b = "Rule_ctor [9 :: nat] []"
  have nth: "?A ! k \<noteq> 9" if "k < Suc n" for k
    using that by (cases k) (simp_all add: nth_append)
  have early: "\<not> matchesAt (getLHS ?b) k (getLHS ?a)" if "k < Suc n" for k
    using that nth [OF that] by (simp add: matchesAt_singleton Rule_ctor_def getLHS_def)
  have last: "matchesAt (getLHS ?b) (Suc n) (getLHS ?a)"
    by (simp add: matchesAt_singleton Rule_ctor_def getLHS_def nth_append)
  have "overlapPairs (Suc 0) 0 ?a ?b
      = [(Suc 0, 0, Suc n, getLHS ?a, getRHS ?a, rewriteAt (getLHS ?a) (Suc n) (getLHS ?b) (getRHS ?b))]"
    by (rule overlapPairs_last_symbol [OF _ _ _ early last])
       (simp_all add: Rule_ctor_def getLHS_def)
  then show ?thesis
    by (simp add: Rule_ctor_def getLHS_def getRHS_def rewriteAt_def)
qed

lemma completion_overflow_example:
  assumes "2 ^ 15 \<le> n" and "n < 2 ^ 32"
  shows "computeConfluentCompletion shortlex merge (Suc m) maxDepth
           (initialize shortlex [([9], []), (8 # replicate n 7 @ [9], replicate n 7 @ [9])])
         = Some (Inl Overflow)"
proof -
  let ?A = "8 # replicate n 7 @ [9 :: nat]" and ?B = "replicate n 7 @ [9 :: nat]"
  let ?S = "initialize shortlex [([9], []), (?A, ?B)]"
  let ?r0 = "Rule_ctor [9 :: nat] []" and ?r1 = "Rule_ctor ?A ?B"
  have ne: "?A \<noteq> ?B"
  proof
    assume "?A = ?B"
    then have "length ?A = length ?B" by (rule arg_cong)
    then show False by simp
  qed
  have sl: "\<not> shortlex ?A ?B" by (simp add: shortlex_def)
  have rules: "Rules ?S = [?r0, ?r1]"
    using ne sl by (simp add: initialize_def addRule_def emptySystem_def shortlex_def)
  have checked: "CheckedOverlaps ?S = {}"
    using ne sl by (simp add: initialize_def addRule_def emptySystem_def shortlex_def)
  have "[0..<length (Rules ?S)] = [0, Suc 0]"
    unfolding rules by (simp add: upt_conv_Cons)
  then have "List.product [0..<length (Rules ?S)] [0..<length (Rules ?S)]
      = [(0, 0), (0, Suc 0), (Suc 0, 0), (Suc 0, Suc 0)]"
    by simp
  then have pairs: "pairsToCheck ?S = [(0, 0), (0, Suc 0), (Suc 0, Suc 0)]"
    unfolding pairsToCheck_def checked rules
    by (simp add: Rule_ctor_def isDeleted_def)
  have p00: "criticalPairs [?r0, ?r1] (0, 0) = []"
    by (simp add: criticalPairs_def overlapPairs_def Rule_ctor_def getLHS_def)
  have "overlapPairs 0 (Suc 0) ?r0 ?r1 = []"
    by (simp add: overlapPairs_def Rule_ctor_def getLHS_def matchesAt_def)
  then have p01: "criticalPairs [?r0, ?r1] (0, Suc 0)
      = [(Suc 0, 0, Suc n, ?A, ?B, 8 # replicate n 7)]"
    by (simp add: criticalPairs_def overlapPairs_example)
  obtain rest where cps:
    "concat (map (criticalPairs (Rules ?S)) (pairsToCheck ?S))
       = (Suc 0, 0, Suc n, ?A, ?B, 8 # replicate n 7) # rest"
    unfolding pairs rules using p00 p01 by simp
  have "simplifyWithPath ?S ?B = Some (Inl Overflow)"
    by (rule simplifyWithPath_overflow_example [where w = ?A, OF _ _ assms rules]) simp_all
  then have "resolveCriticalPairs shortlex ?S
      ((Suc 0, 0, Suc n, ?A, ?B, 8 # replicate n 7) # rest) = Some (Inl Overflow)"
    by (rule resolveCriticalPairs_head_fault)
  with cps have "completionRound shortlex merge maxDepth ?S = Some (Inl Overflow)"
    by (simp add: completionRound_def Let_def)
  then show ?thesis
    by (simp add: computeConfluentCompletion_def)
qed

subsection \<open>Rounds\<close>


lemma extends_length: "extends a b \<Longrightarrow> length (Rules a) \<le> length (Rules b)"
  by (auto simp add: extends_def)










section \<open>Simplification to normal form\<close>

text \<open>
  Claim C3: in a system whose rules are oriented under the term order, \<open>simplify\<close>
  terminates on every term. The term it returns is a normal form (no live rule's
  left-hand side occurs in it), it is reached from the input by forward applications of
  live rules, the flag tells whether any rule was applied, no path stays no path, and a
  supplied path is extended by exactly one forward rule step per applied rewrite, in order.
  It returns in this way whenever no path is supplied, and whenever the call is within
  the capacity of the step fields: at most \<open>2 ^ 15\<close> rules, and fewer than \<open>2 ^ 15\<close>
  symbols in every term the rewriting can reach. The only other way it can end is the
  overflow assertion of the step constructor, with a path supplied, at a rewrite whose
  offset or rule identifier does not fit in 15 bits.
\<close>

theorem simplify_normal_form:
  assumes "term_order lt" and "oriented lt (Rules sys)"
  shows "\<exists>res. simplify sys t path = Some res
    \<and> (\<forall>c t' path'. res = Inr (c, t', path') \<longrightarrow>
          isNormalForm (Rules sys) t' \<and> (rewrites1 (Rules sys))\<^sup>*\<^sup>* t t'
          \<and> (\<exists>tr. applyTrace (Rules sys) tr t = Some t' \<and> c = (tr \<noteq> [])
                \<and> (path = None \<longrightarrow> path' = None)
                \<and> (\<forall>p. path = Some p \<longrightarrow>
                     (\<exists>q. path' = Some (p @ q)
                        \<and> list_all2 (\<lambda>st (off, i).
                             forRewriteRule (of_nat off) (of_nat i) False = Inr st) q tr))))
    \<and> (\<forall>e. res = Inl e \<longrightarrow>
          e = Overflow \<and> path \<noteq> None
          \<and> (\<exists>t' off i. (rewrites1 (Rules sys))\<^sup>*\<^sup>* t t'
                \<and> findRedex (Rules sys) t' = Some (off, i)
                \<and> (2 ^ 15 \<le> unat (of_nat off :: 32 word) \<or> 2 ^ 15 \<le> unat (of_nat i :: 32 word))))
    \<and> (path = None
         \<or> (length (Rules sys) \<le> 2 ^ 15
              \<and> (\<forall>t'. (rewrites1 (Rules sys))\<^sup>*\<^sup>* t t' \<longrightarrow> length t' < 2 ^ 15))
        \<longrightarrow> (\<exists>c t' path'. res = Inr (c, t', path')))"
proof -
  from simplify_runs [OF assms, of t path]
  obtain tr res where s: "simplify sys t path = Some res"
    and r: "simplify_run (Rules sys) t path False tr res" by blast
  have a: "isNormalForm (Rules sys) t' \<and> (rewrites1 (Rules sys))\<^sup>*\<^sup>* t t'
          \<and> (\<exists>tr. applyTrace (Rules sys) tr t = Some t' \<and> c = (tr \<noteq> [])
                \<and> (path = None \<longrightarrow> path' = None)
                \<and> (\<forall>p. path = Some p \<longrightarrow>
                     (\<exists>q. path' = Some (p @ q)
                        \<and> list_all2 (\<lambda>st (off, i).
                             forRewriteRule (of_nat off) (of_nat i) False = Inr st) q tr)))"
    if "res = Inr (c, t', path')" for c t' path'
  proof -
    note h = simplify_run_Inr [OF r that]
    from h have "isNormalForm (Rules sys) t'" by (simp add: findRedex_None_normal)
    moreover from h have tr: "applyTrace (Rules sys) tr t = Some t'" by simp
    then have "(rewrites1 (Rules sys))\<^sup>*\<^sup>* t t'" by (rule applyTrace_reachable)
    ultimately show ?thesis using h by blast
  qed
  have b: "e = Overflow \<and> path \<noteq> None
          \<and> (\<exists>t' off i. (rewrites1 (Rules sys))\<^sup>*\<^sup>* t t'
                \<and> findRedex (Rules sys) t' = Some (off, i)
                \<and> (2 ^ 15 \<le> unat (of_nat off :: 32 word) \<or> 2 ^ 15 \<le> unat (of_nat i :: 32 word)))"
    if "res = Inl e" for e
  proof -
    from simplify_run_Inl [OF r that] obtain t' off i where
      e: "e = Overflow" "path \<noteq> None" and t': "applyTrace (Rules sys) tr t = Some t'"
      and f: "findRedex (Rules sys) t' = Some (off, i)"
        "forRewriteRule (of_nat off) (of_nat i) False = Inl Overflow"
      by blast
    from t' have "(rewrites1 (Rules sys))\<^sup>*\<^sup>* t t'" by (rule applyTrace_reachable)
    with e f show ?thesis unfolding forRewriteRule_Inl_iff by blast
  qed
  have cap: "\<exists>c t' path'. res = Inr (c, t', path')"
    if h: "path = None
         \<or> (length (Rules sys) \<le> 2 ^ 15
              \<and> (\<forall>t'. (rewrites1 (Rules sys))\<^sup>*\<^sup>* t t' \<longrightarrow> length t' < 2 ^ 15))"
  proof (cases res)
    case (Inl e)
    from b [OF Inl] obtain t' off i where p: "path \<noteq> None"
      and t': "(rewrites1 (Rules sys))\<^sup>*\<^sup>* t t'"
      and f: "findRedex (Rules sys) t' = Some (off, i)"
      and o: "2 ^ 15 \<le> unat (of_nat off :: 32 word) \<or> 2 ^ 15 \<le> unat (of_nat i :: 32 word)"
      by blast
    from h p t' have "length (Rules sys) \<le> 2 ^ 15" "length t' < 2 ^ 15" by simp_all
    from within_capacity [OF f this(2,1)] o show ?thesis by linarith
  next
    case (Inr x)
    then show ?thesis by (cases x) simp
  qed
  from a have a': "\<forall>c t' path'. res = Inr (c, t', path') \<longrightarrow>
          isNormalForm (Rules sys) t' \<and> (rewrites1 (Rules sys))\<^sup>*\<^sup>* t t'
          \<and> (\<exists>tr. applyTrace (Rules sys) tr t = Some t' \<and> c = (tr \<noteq> [])
                \<and> (path = None \<longrightarrow> path' = None)
                \<and> (\<forall>p. path = Some p \<longrightarrow>
                     (\<exists>q. path' = Some (p @ q)
                        \<and> list_all2 (\<lambda>st (off, i).
                             forRewriteRule (of_nat off) (of_nat i) False = Inr st) q tr)))"
    by blast
  from b have b': "\<forall>e. res = Inl e \<longrightarrow>
          e = Overflow \<and> path \<noteq> None
          \<and> (\<exists>t' off i. (rewrites1 (Rules sys))\<^sup>*\<^sup>* t t'
                \<and> findRedex (Rules sys) t' = Some (off, i)
                \<and> (2 ^ 15 \<le> unat (of_nat off :: 32 word) \<or> 2 ^ 15 \<le> unat (of_nat i :: 32 word)))"
    by blast
  from cap have c': "path = None
         \<or> (length (Rules sys) \<le> 2 ^ 15
              \<and> (\<forall>t'. (rewrites1 (Rules sys))\<^sup>*\<^sup>* t t' \<longrightarrow> length t' < 2 ^ 15))
        \<longrightarrow> (\<exists>c t' path'. res = Inr (c, t', path'))"
    by (rule impI)
  from s a' b' c' show ?thesis
    by (intro exI [of _ res] conjI)
qed

theorem simplify_normal_form_witness:
  "term_order shortlex
   \<and> oriented shortlex (Rules (initialize shortlex [([6, 2], [3]), ([5], [3, 4])]))
   \<and> simplify (initialize shortlex [([6, 2], [3]), ([5], [3, 4])]) [8, 6, 2, 4, 3, 4] (Some [])
       = Some (Inr (True, [8, 5, 5],
           Some [\<lparr>Kind = 0, Offset = 1, RuleID = 0, Inverse = 0\<rparr>,
                 \<lparr>Kind = 0, Offset = 1, RuleID = 1, Inverse = 0\<rparr>,
                 \<lparr>Kind = 0, Offset = 2, RuleID = 1, Inverse = 0\<rparr>]))
   \<and> isNormalForm (Rules (initialize shortlex [([6, 2], [3]), ([5], [3, 4])])) [8, 5, 5]
   \<and> (rewrites1 (Rules (initialize shortlex [([6, 2], [3]), ([5], [3, 4])])))\<^sup>*\<^sup>*
        [8, 6, 2, 4, 3, 4] [8, 5, 5]"
proof -
  let ?S = "initialize shortlex [([6, 2], [3]), ([5], [3, 4])]"
  have ori: "oriented shortlex (Rules ?S)"
    by code_simp
  have ev: "simplify ?S [8, 6, 2, 4, 3, 4] (Some [])
       = Some (Inr (True, [8, 5, 5],
           Some [\<lparr>Kind = 0, Offset = 1, RuleID = 0, Inverse = 0\<rparr>,
                 \<lparr>Kind = 0, Offset = 1, RuleID = 1, Inverse = 0\<rparr>,
                 \<lparr>Kind = 0, Offset = 2, RuleID = 1, Inverse = 0\<rparr>]))"
    by code_simp
  have "length (Rules ?S) = 2"
    by code_simp
  then have "length (Rules ?S) \<le> 2 ^ 15"
    by simp
  moreover have "length t' < 2 ^ 15" if "(rewrites1 (Rules ?S))\<^sup>*\<^sup>* [8, 6, 2, 4, 3, 4] t'" for t'
    using shortlex_reachable_length [OF ori that] by simp
  ultimately have cap: "length (Rules ?S) \<le> 2 ^ 15
      \<and> (\<forall>t'. (rewrites1 (Rules ?S))\<^sup>*\<^sup>* [8, 6, 2, 4, 3, 4] t' \<longrightarrow> length t' < 2 ^ 15)"
    by blast
  from simplify_normal_form [OF shortlex_term_order ori, of "[8, 6, 2, 4, 3, 4]" "Some []"] ev cap
  have "isNormalForm (Rules ?S) [8, 5, 5] \<and> (rewrites1 (Rules ?S))\<^sup>*\<^sup>* [8, 6, 2, 4, 3, 4] [8, 5, 5]"
    by auto
  with shortlex_term_order ori ev show ?thesis by simp
qed

text \<open>
  Claim C4: \<open>simplify\<close> is idempotent. In a system whose rules are oriented under the term
  order, simplifying a term returns a term that a second call leaves unchanged (with or
  without a path, and reporting that nothing was rewritten).
\<close>

theorem simplify_idempotent:
  assumes "term_order lt" and "oriented lt (Rules sys)"
  shows "\<exists>c t'. simplify sys t None = Some (Inr (c, t', None))
           \<and> (\<forall>path. simplify sys t' path = Some (Inr (False, t', path)))"
proof -
  from simplify_runs [OF assms, of t None]
  obtain tr res where s: "simplify sys t None = Some res"
    and r: "simplify_run (Rules sys) t None False tr res" by blast
  show ?thesis
  proof (cases res)
    case (Inl e)
    with simplify_run_Inl [OF r] show ?thesis by simp
  next
    case (Inr x)
    obtain c t' path' where x: "x = (c, t', path')" by (cases x)
    with Inr simplify_run_Inr [OF r, of c t' path']
    have n: "findRedex (Rules sys) t' = None" and p: "path' = None" by simp_all
    have "simplify sys t' path = Some (Inr (False, t', path))" for path
      unfolding simplify_def using n by (subst simplify_loop.simps) simp
    with s Inr x p show ?thesis by simp
  qed
qed

theorem simplify_idempotent_witness:
  "term_order shortlex
   \<and> oriented shortlex (Rules (initialize shortlex [([6, 2], [3]), ([5], [3, 4])]))
   \<and> simplify (initialize shortlex [([6, 2], [3]), ([5], [3, 4])]) [8, 6, 2, 4, 3, 4] None
       = Some (Inr (True, [8, 5, 5], None))
   \<and> simplify (initialize shortlex [([6, 2], [3]), ([5], [3, 4])]) [8, 5, 5] None
       = Some (Inr (False, [8, 5, 5], None))"
proof -
  let ?S = "initialize shortlex [([6, 2], [3]), ([5], [3, 4])]"
  have ori: "oriented shortlex (Rules ?S)"
    by code_simp
  have ev: "simplify ?S [8, 6, 2, 4, 3, 4] None = Some (Inr (True, [8, 5, 5], None))"
    by code_simp
  from simplify_idempotent [OF shortlex_term_order ori, of "[8, 6, 2, 4, 3, 4]"] ev
  have "simplify ?S [8, 5, 5] None = Some (Inr (False, [8, 5, 5], None))"
    by simp
  with shortlex_term_order ori ev show ?thesis by simp
qed

section \<open>Rules accepted into the system\<close>

text \<open>
  Claim C1, as stated: every rule has a left-hand side strictly above its right-hand side,
  and constructing a rule that violates this fails. The constructor has no check: it
  accepts a pair of equal terms (which no strict order separates), and a pair whose
  left-hand side is the smaller term in the length-then-lexicographic order.
\<close>

theorem Rule_ctor_accepts_unordered:
  "Rule_ctor [4::nat] [4] = \<lparr>LHS = [4], RHS = [4], deleted = False\<rparr>
   \<and> getLHS (Rule_ctor [4::nat] [4]) = getRHS (Rule_ctor [4::nat] [4])
   \<and> shortlex [4] [5, 6]
   \<and> \<not> shortlex [5, 6] [4]
   \<and> Rule_ctor [4::nat] [5, 6] = \<lparr>LHS = [4], RHS = [5, 6], deleted = False\<rparr>"
  by (simp add: Rule_ctor_def getLHS_def getRHS_def shortlex_def)

text \<open>
  Claim C1, amended: every rule accepted into the system has its left-hand side above its
  right-hand side, and it is \<open>addRule\<close> that sees to it, not the constructor. \<open>addRule\<close>
  rejects a pair of equal terms (no rule is added) and otherwise orients the pair before
  it constructs the rule, so that the rule it appends is oriented and an oriented rule
  table stays oriented; the table that \<open>initialize\<close> builds is oriented. The constructor
  itself accepts every pair of terms and stores both sides as given, with the deleted
  flag cleared: the rule it returns has its left-hand side above its right-hand side
  exactly when the caller passed the two terms in that order.
\<close>

theorem accepted_rules_oriented:
  assumes "term_order lt"
  shows "Rule_ctor a b = \<lparr>LHS = a, RHS = b, deleted = False\<rparr>
    \<and> lt (getRHS (Rule_ctor a b)) (getLHS (Rule_ctor a b)) = lt b a
    \<and> oriented lt (Rules (initialize lt pairs))
    \<and> addRule lt a a sys = (False, sys)
    \<and> (a \<noteq> b \<longrightarrow>
          fst (addRule lt a b sys)
          \<and> Rules (snd (addRule lt a b sys))
              = Rules sys @ [if lt a b then Rule_ctor b a else Rule_ctor a b]
          \<and> lt (getRHS (last (Rules (snd (addRule lt a b sys)))))
                (getLHS (last (Rules (snd (addRule lt a b sys))))))
    \<and> (oriented lt (Rules sys) \<longrightarrow> oriented lt (Rules (snd (addRule lt a b sys))))"
proof -
  have "Rule_ctor a b = \<lparr>LHS = a, RHS = b, deleted = False\<rparr>"
    by (simp add: Rule_ctor_def)
  moreover have "lt (getRHS (Rule_ctor a b)) (getLHS (Rule_ctor a b)) = lt b a"
    by (simp add: Rule_ctor_def getLHS_def getRHS_def)
  moreover have "oriented lt (Rules (initialize lt pairs))"
    using assms by (rule initialize_oriented)
  moreover have "addRule lt a a sys = (False, sys)"
    by (rule addRule_equal)
  moreover have "fst (addRule lt a b sys)
          \<and> Rules (snd (addRule lt a b sys))
              = Rules sys @ [if lt a b then Rule_ctor b a else Rule_ctor a b]
          \<and> lt (getRHS (last (Rules (snd (addRule lt a b sys)))))
                (getLHS (last (Rules (snd (addRule lt a b sys)))))"
    if ne: "a \<noteq> b"
  proof -
    from assms have "\<forall>x y. x \<noteq> y \<longrightarrow> lt x y \<or> lt y x" by (simp add: term_order_def)
    with ne have "lt a b \<or> lt b a" by blast
    then show ?thesis
      by (auto simp add: addRule_distinct [OF ne] Rule_ctor_def getLHS_def getRHS_def)
  qed
  moreover have "oriented lt (Rules (snd (addRule lt a b sys)))" if "oriented lt (Rules sys)"
    using assms that by (rule addRule_oriented)
  ultimately show ?thesis by blast
qed

theorem accepted_rules_oriented_witness:
  "term_order shortlex
   \<and> Rules (initialize shortlex [([4], [5, 6]), ([7], [7]), ([8, 9], [3])])
       = [Rule_ctor [5, 6] [4], Rule_ctor [8, 9] [3]]
   \<and> oriented shortlex (Rules (initialize shortlex [([4], [5, 6]), ([7], [7]), ([8, 9], [3])]))
   \<and> fst (addRule shortlex [4] [5, 6] (initialize shortlex [([2, 3], [4])]))
   \<and> Rules (snd (addRule shortlex [4] [5, 6] (initialize shortlex [([2, 3], [4])])))
       = [Rule_ctor [2, 3] [4], Rule_ctor [5, 6] [4]]
   \<and> oriented shortlex (Rules (snd (addRule shortlex [4] [5, 6] (initialize shortlex [([2, 3], [4])]))))
   \<and> \<not> fst (addRule shortlex [7] [7] (initialize shortlex [([2, 3], [4])]))"
proof -
  let ?P = "[([4], [5, 6]), ([7], [7]), ([8, 9], [3 :: nat])]"
  let ?S = "initialize shortlex [([2, 3], [4 :: nat])]"
  have ne: "[4] \<noteq> [5, 6 :: nat]" by simp
  have sl: "shortlex [4] [5, 6]" by (simp add: shortlex_def)
  have p: "Rules (initialize shortlex ?P) = [Rule_ctor [5, 6] [4], Rule_ctor [8, 9] [3]]"
    by code_simp
  have s: "Rules ?S = [Rule_ctor [2, 3] [4]]"
    by code_simp
  have oS: "oriented shortlex (Rules ?S)"
    using shortlex_term_order by (rule initialize_oriented)
  note t = accepted_rules_oriented [OF shortlex_term_order, of "[4]" "[5, 6]" ?P ?S]
  note u = accepted_rules_oriented [OF shortlex_term_order, of "[7]" "[7]" ?P ?S]
  from t have "oriented shortlex (Rules (initialize shortlex ?P))" by blast
  moreover from t ne sl s have "fst (addRule shortlex [4] [5, 6] ?S)"
    "Rules (snd (addRule shortlex [4] [5, 6] ?S)) = [Rule_ctor [2, 3] [4], Rule_ctor [5, 6] [4]]"
    by simp_all
  moreover from t oS have "oriented shortlex (Rules (snd (addRule shortlex [4] [5, 6] ?S)))"
    by blast
  moreover from u have "\<not> fst (addRule shortlex [7] [7] ?S)" by simp
  ultimately show ?thesis
    using shortlex_term_order p by (intro conjI)
qed

text \<open>
  Claim C7: \<open>addRule\<close> orients its pair under the term order, the larger term becoming
  the left-hand side; on equal sides it changes nothing and returns false; otherwise it
  appends one rule built from the oriented pair, maps that rule's left-hand side to the new
  rule identifier in the trie, and returns true. The returned flag is true exactly when
  the rule table has grown by one rule.
\<close>

theorem addRule_orients:
  assumes "term_order lt"
  shows "(a = b \<longrightarrow> addRule lt a b sys = (False, sys))
    \<and> (a \<noteq> b \<longrightarrow>
         (\<exists>u v. (u = a \<and> v = b \<or> u = b \<and> v = a) \<and> lt v u
            \<and> addRule lt a b sys =
                (True, sys\<lparr>Rules := Rules sys @ [Rule_ctor u v],
                           Trie := (Trie sys)(u \<mapsto> length (Rules sys))\<rparr>)))
    \<and> (fst (addRule lt a b sys)
          \<longleftrightarrow> length (Rules (snd (addRule lt a b sys))) = Suc (length (Rules sys)))
    \<and> (\<not> fst (addRule lt a b sys) \<longrightarrow> snd (addRule lt a b sys) = sys)
    \<and> (fst (addRule lt a b sys) \<longrightarrow>
          Trie (snd (addRule lt a b sys)) (getLHS (last (Rules (snd (addRule lt a b sys)))))
            = Some (length (Rules sys)))"
proof (cases "a = b")
  case True
  then show ?thesis by (simp add: addRule_equal)
next
  case False
  from assms have "\<forall>x y. x \<noteq> y \<longrightarrow> lt x y \<or> lt y x" by (simp add: term_order_def)
  with False have t: "lt a b \<or> lt b a" by blast
  let ?u = "if lt a b then b else a" and ?v = "if lt a b then a else b"
  have uv: "(?u = a \<and> ?v = b \<or> ?u = b \<and> ?v = a) \<and> lt ?v ?u"
    using t by auto
  note e = addRule_distinct [OF False, of lt sys]
  have "\<exists>u v. (u = a \<and> v = b \<or> u = b \<and> v = a) \<and> lt v u
            \<and> addRule lt a b sys =
                (True, sys\<lparr>Rules := Rules sys @ [Rule_ctor u v],
                           Trie := (Trie sys)(u \<mapsto> length (Rules sys))\<rparr>)"
    using uv e by blast
  moreover have "fst (addRule lt a b sys)" by (simp add: e)
  moreover have "length (Rules (snd (addRule lt a b sys))) = Suc (length (Rules sys))"
    by (simp add: e)
  moreover have "Trie (snd (addRule lt a b sys)) (getLHS (last (Rules (snd (addRule lt a b sys)))))
            = Some (length (Rules sys))"
    by (simp add: e Rule_ctor_def getLHS_def)
  ultimately show ?thesis using False by simp
qed

theorem addRule_orients_witness:
  "term_order shortlex
   \<and> addRule shortlex [2, 3] [2, 3] emptySystem = (False, emptySystem)
   \<and> addRule shortlex [2, 3] [4, 2] emptySystem
       = (True, emptySystem\<lparr>Rules := [Rule_ctor [4, 2] [2, 3]], Trie := [[4, 2] \<mapsto> 0]\<rparr>)
   \<and> shortlex [2, 3] [4, 2]
   \<and> fst (addRule shortlex [2, 3] [4, 2] emptySystem)
   \<and> Trie (snd (addRule shortlex [2, 3] [4, 2] emptySystem)) [4, 2] = Some 0"
proof -
  have e: "addRule shortlex [2, 3] [4, 2] emptySystem
       = (True, emptySystem\<lparr>Rules := [Rule_ctor [4, 2] [2, 3]], Trie := [[4, 2] \<mapsto> 0]\<rparr>)"
    by (simp add: addRule_def shortlex_def emptySystem_def)
  have s: "shortlex [2, 3] [4, 2]" by (simp add: shortlex_def)
  from addRule_orients [OF shortlex_term_order, of "[2, 3]" "[2, 3]" emptySystem]
  have "addRule shortlex [2, 3] [2, 3] emptySystem = (False, emptySystem)" by simp
  moreover from addRule_orients [OF shortlex_term_order, of "[2, 3]" "[4, 2]" emptySystem] e
  have "Trie (snd (addRule shortlex [2, 3] [4, 2] emptySystem)) [4, 2] = Some 0"
    by (simp add: Rule_ctor_def getLHS_def emptySystem_def)
  ultimately show ?thesis using shortlex_term_order e s by simp
qed

section \<open>Deleted rules\<close>



section \<open>Inverting a path\<close>

text \<open>
  Claim C5: let a path applied step by step to a source term yield a target term. Then the
  inverted path has the same steps in reverse order, each with its direction flipped and
  its kind, offset and rule unchanged; applied to the target it yields the source; the path
  followed by its inverse takes the source back to itself, as the empty (identity) path
  does; and that composite reduces to the empty path by cancelling, one pair at a time, a
  step with the inverse step that follows it. Adjustment steps enter through the
  parameter \<open>adj\<close>, assumed invertible.
\<close>

theorem RewritePath_invert_roundtrip:
  assumes "adjust_invertible adj" and "applyPath adj sys p src = Inr tgt"
  shows "length (RewritePath_invert p) = length p
    \<and> (\<forall>k<length p.
          RewritePath_invert p ! k = RewriteStep_invert (p ! (length p - 1 - k))
          \<and> isInverse (RewritePath_invert p ! k) = (\<not> isInverse (p ! (length p - 1 - k)))
          \<and> stepKind (RewritePath_invert p ! k) = stepKind (p ! (length p - 1 - k))
          \<and> Offset (RewritePath_invert p ! k) = Offset (p ! (length p - 1 - k))
          \<and> RuleID (RewritePath_invert p ! k) = RuleID (p ! (length p - 1 - k)))
    \<and> applyPath adj sys (RewritePath_invert p) tgt = Inr src
    \<and> applyPath adj sys (RewritePath_append p (RewritePath_invert p)) src = Inr src
    \<and> applyPath adj sys (RewritePath_append p (RewritePath_invert p)) src = applyPath adj sys [] src
    \<and> path_cancel\<^sup>*\<^sup>* (RewritePath_append p (RewritePath_invert p)) []"
proof -
  have len: "length (RewritePath_invert p) = length p"
    by (simp add: RewritePath_invert_def)
  have nth: "RewritePath_invert p ! k = RewriteStep_invert (p ! (length p - 1 - k))"
    if "k < length p" for k
    using that by (simp add: RewritePath_invert_def rev_nth)
  have inv: "applyPath adj sys (RewritePath_invert p) tgt = Inr src"
    using assms by (rule applyPath_invert)
  have loop: "applyPath adj sys (RewritePath_append p (RewritePath_invert p)) src = Inr src"
    using assms(2) inv by (simp add: RewritePath_append_def applyPath_append)
  have red: "path_cancel\<^sup>*\<^sup>* (RewritePath_append p (RewritePath_invert p)) []"
    unfolding RewritePath_append_def by (rule path_cancel_all)
  from len nth inv loop red show ?thesis
    by (simp add: isInverse_invert invert_fields)
qed

theorem RewritePath_invert_roundtrip_witness:
  "adjust_invertible
     (\<lambda>off f t. if f then (if take off t = replicate off (7::nat) then Inr (drop off t) else Inl Mismatch)
                 else Inr (replicate off 7 @ t))
   \<and> applyPath
        (\<lambda>off f t. if f then (if take off t = replicate off (7::nat) then Inr (drop off t) else Inl Mismatch)
                    else Inr (replicate off 7 @ t))
        (initialize shortlex [([6, 2], [3]), ([5], [3, 4])])
        [\<lparr>Kind = 0, Offset = 1, RuleID = 0, Inverse = 0\<rparr>,
         \<lparr>Kind = 0, Offset = 1, RuleID = 1, Inverse = 0\<rparr>,
         \<lparr>Kind = 1, Offset = 2, RuleID = 0, Inverse = 0\<rparr>]
        [8, 6, 2, 4] = Inr [7, 7, 8, 5]
   \<and> applyPath
        (\<lambda>off f t. if f then (if take off t = replicate off (7::nat) then Inr (drop off t) else Inl Mismatch)
                    else Inr (replicate off 7 @ t))
        (initialize shortlex [([6, 2], [3]), ([5], [3, 4])])
        (RewritePath_invert
          [\<lparr>Kind = 0, Offset = 1, RuleID = 0, Inverse = 0\<rparr>,
           \<lparr>Kind = 0, Offset = 1, RuleID = 1, Inverse = 0\<rparr>,
           \<lparr>Kind = 1, Offset = 2, RuleID = 0, Inverse = 0\<rparr>])
        [7, 7, 8, 5] = Inr [8, 6, 2, 4]
   \<and> RewritePath_invert
          [\<lparr>Kind = 0, Offset = 1, RuleID = 0, Inverse = 0\<rparr>,
           \<lparr>Kind = 0, Offset = 1, RuleID = 1, Inverse = 0\<rparr>,
           \<lparr>Kind = 1, Offset = 2, RuleID = 0, Inverse = 0\<rparr>]
        = [\<lparr>Kind = 1, Offset = 2, RuleID = 0, Inverse = 1\<rparr>,
           \<lparr>Kind = 0, Offset = 1, RuleID = 1, Inverse = 1\<rparr>,
           \<lparr>Kind = 0, Offset = 1, RuleID = 0, Inverse = 1\<rparr>]"
proof -
  let ?adj = "\<lambda>off f t. if f then (if take off t = replicate off (7::nat) then Inr (drop off t) else Inl Mismatch)
                    else Inr (replicate off 7 @ t)"
  let ?S = "initialize shortlex [([6, 2], [3]), ([5], [3, 4])]"
  let ?p = "[\<lparr>Kind = 0, Offset = 1, RuleID = 0, Inverse = 0\<rparr>,
             \<lparr>Kind = 0, Offset = 1, RuleID = 1, Inverse = 0\<rparr>,
             \<lparr>Kind = 1, Offset = 2, RuleID = 0, Inverse = 0\<rparr>]"
  have a: "adjust_invertible ?adj"
    unfolding adjust_invertible_def
  proof (intro allI impI)
    fix off f t t'
    assume h: "?adj off f t = Inr t'"
    show "?adj off (\<not> f) t' = Inr t"
    proof (cases f)
      case True
      with h have "take off t = replicate off 7" "t' = drop off t"
        by (auto split: if_splits)
      then have "replicate off 7 @ t' = t"
        by (metis append_take_drop_id)
      with True show ?thesis by simp
    next
      case False
      with h have "t' = replicate off 7 @ t" by simp
      with False show ?thesis by simp
    qed
  qed
  have ap: "applyPath ?adj ?S ?p [8, 6, 2, 4] = Inr [7, 7, 8, 5]"
    by code_simp
  have i: "RewritePath_invert ?p
        = [\<lparr>Kind = 1, Offset = 2, RuleID = 0, Inverse = 1\<rparr>,
           \<lparr>Kind = 0, Offset = 1, RuleID = 1, Inverse = 1\<rparr>,
           \<lparr>Kind = 0, Offset = 1, RuleID = 0, Inverse = 1\<rparr>]"
    by (simp add: RewritePath_invert_def RewriteStep_invert_def bool_unsigned_def)
  from RewritePath_invert_roundtrip [OF a ap]
  have "applyPath ?adj ?S (RewritePath_invert ?p) [7, 7, 8, 5] = Inr [8, 6, 2, 4]"
    by blast
  with a ap i show ?thesis by simp
qed

section \<open>Bounded completion\<close>


end
